theory Spec2Isabelle
  imports Complex_Main "HOL-Library.Multiset" "HOL-Library.Product_Lexorder"
begin

text \<open>
  The data reduction of the geophysical plotter \<^verbatim>\<open>script.js\<close>: the geometric factor of
  an electrode array, the Karous-Hjelt filter, the parsers for VLF and resistivity text
  and the grouping of resistivity records for the plot. The first part embeds these
  functions; the second part proves their properties.
\<close>

section \<open>JavaScript numbers\<close>

text \<open>
  A JavaScript number is an IEEE-754 double. The model keeps the four kinds of value that
  the program tells apart: a finite value, the two infinities and NaN. A finite value is
  the real number it denotes. An arithmetic result whose exact value lies at or beyond the
  boundary \<open>2^1024 - 2^970\<close>, where round-to-nearest produces an infinity, is that
  infinity; below the boundary the exact value is kept, so the rounding of the last bit
  and underflow are idealised away, and the two zeros are one value.
\<close>

datatype jsnum = Fin real | PInf | NInf | NaN

definition DBL_OVERFLOW :: real where
  "DBL_OVERFLOW = 2 ^ 1024 - 2 ^ 970"

definition fl :: "real \<Rightarrow> jsnum" where
  "fl x = (if DBL_OVERFLOW \<le> x then PInf
           else if x \<le> - DBL_OVERFLOW then NInf
           else Fin x)"

text \<open>\<^verbatim>\<open>Number.isFinite\<close>, and the global \<^verbatim>\<open>isNaN\<close> applied to a number.\<close>

fun isFinite :: "jsnum \<Rightarrow> bool" where
  "isFinite (Fin _) = True"
| "isFinite _ = False"

fun isNaN :: "jsnum \<Rightarrow> bool" where
  "isNaN NaN = True"
| "isNaN _ = False"

text \<open>Truthiness of a number: \<^verbatim>\<open>!x\<close> holds exactly for zero and NaN.\<close>

fun falsy :: "jsnum \<Rightarrow> bool" where
  "falsy (Fin x) = (x = 0)"
| "falsy NaN = True"
| "falsy _ = False"

fun jneg :: "jsnum \<Rightarrow> jsnum" where
  "jneg (Fin x) = Fin (- x)"
| "jneg PInf = NInf"
| "jneg NInf = PInf"
| "jneg NaN = NaN"

fun jabs :: "jsnum \<Rightarrow> jsnum" where
  "jabs (Fin x) = Fin \<bar>x\<bar>"
| "jabs PInf = PInf"
| "jabs NInf = PInf"
| "jabs NaN = NaN"

fun jadd :: "jsnum \<Rightarrow> jsnum \<Rightarrow> jsnum" where
  "jadd NaN _ = NaN"
| "jadd _ NaN = NaN"
| "jadd (Fin x) (Fin y) = fl (x + y)"
| "jadd PInf NInf = NaN"
| "jadd NInf PInf = NaN"
| "jadd PInf _ = PInf"
| "jadd NInf _ = NInf"
| "jadd _ PInf = PInf"
| "jadd _ NInf = NInf"

definition jsub :: "jsnum \<Rightarrow> jsnum \<Rightarrow> jsnum" where
  "jsub a b = jadd a (jneg b)"

text \<open>The sign of a number that is not NaN: \<open>-1\<close>, \<open>0\<close> or \<open>1\<close>.\<close>

fun jsgn :: "jsnum \<Rightarrow> int" where
  "jsgn (Fin x) = (if x < 0 then - 1 else if x = 0 then 0 else 1)"
| "jsgn PInf = 1"
| "jsgn NInf = - 1"
| "jsgn NaN = 0"

definition inf_of_sign :: "int \<Rightarrow> jsnum" where
  "inf_of_sign s = (if s < 0 then NInf else PInf)"

fun jmul :: "jsnum \<Rightarrow> jsnum \<Rightarrow> jsnum" where
  "jmul NaN _ = NaN"
| "jmul _ NaN = NaN"
| "jmul (Fin x) (Fin y) = fl (x * y)"
| "jmul a b = (if jsgn a * jsgn b = 0 then NaN else inf_of_sign (jsgn a * jsgn b))"

fun jdiv :: "jsnum \<Rightarrow> jsnum \<Rightarrow> jsnum" where
  "jdiv NaN _ = NaN"
| "jdiv _ NaN = NaN"
| "jdiv (Fin x) (Fin y) =
     (if y = 0 then (if x = 0 then NaN else inf_of_sign (jsgn (Fin x)))
      else fl (x / y))"
| "jdiv (Fin x) _ = Fin 0"
| "jdiv a (Fin y) = inf_of_sign (jsgn a * (if y < 0 then - 1 else 1))"
| "jdiv _ _ = NaN"

text \<open>The comparisons \<^verbatim>\<open><\<close>, \<^verbatim>\<open>>\<close> and \<^verbatim>\<open><=\<close>: false as soon as an operand is NaN.\<close>

fun jlt :: "jsnum \<Rightarrow> jsnum \<Rightarrow> bool" where
  "jlt NaN _ = False"
| "jlt _ NaN = False"
| "jlt (Fin x) (Fin y) = (x < y)"
| "jlt PInf _ = False"
| "jlt _ PInf = True"
| "jlt NInf NInf = False"
| "jlt NInf _ = True"
| "jlt _ NInf = False"

definition jgt :: "jsnum \<Rightarrow> jsnum \<Rightarrow> bool" where
  "jgt a b = jlt b a"

definition jle :: "jsnum \<Rightarrow> jsnum \<Rightarrow> bool" where
  "jle a b = (\<not> isNaN a \<and> \<not> isNaN b \<and> \<not> jlt b a)"

text \<open>\<^verbatim>\<open>Math.PI\<close> is the double nearest to \<open>\<pi>\<close>; this is its exact value.\<close>

definition Math_PI :: jsnum where
  "Math_PI = Fin (884279719003555 / 281474976710656)"

section \<open>Geometric factor\<close>

text \<open>
  \<^verbatim>\<open>calculateGeometricFactor(arrayType, positions)\<close>. The destructuring
  \<^verbatim>\<open>[p1, p2, p3, p4] = positions\<close> leaves a name \<^verbatim>\<open>undefined\<close> when the array is
  too short, and then the presence test returns \<^verbatim>\<open>null\<close>, which is \<open>None\<close> here.
  In the dipole branch \<^verbatim>\<open>n_factor\<close> is \<^verbatim>\<open>null\<close> unless \<^verbatim>\<open>a_dipole > 0\<close>, and
  \<^verbatim>\<open>null > 0\<close> is false.
\<close>

definition calculateGeometricFactor :: "string \<Rightarrow> jsnum list \<Rightarrow> jsnum option" where
  "calculateGeometricFactor arrayType positions =
     (case positions of
        p1 # p2 # p3 # p4 # _ \<Rightarrow>
          if falsy p1 \<or> falsy p2 \<or> falsy p3 \<or> falsy p4 then None
          else if arrayType = ''wenner'' then
            (let a_wenner = jabs (jsub p2 p1)
             in if jgt a_wenner (Fin 0) then Some (jmul (jmul (Fin 2) Math_PI) a_wenner)
                else None)
          else if arrayType = ''schlumberger'' then
            (let L_schl = jdiv (jabs (jsub p4 p1)) (Fin 2);
                 a_schl = jdiv (jabs (jsub p3 p2)) (Fin 2)
             in if jgt a_schl (Fin 0) \<and> jgt L_schl a_schl then
                  Some (jdiv (jmul Math_PI (jsub (jmul L_schl L_schl) (jmul a_schl a_schl)))
                             a_schl)
                else None)
          else if arrayType = ''dipole'' then
            (let a_dipole = jabs (jsub p2 p1);
                 R_separation = jabs (jsub p3 p2);
                 n_factor = (if jgt a_dipole (Fin 0) then Some (jdiv R_separation a_dipole)
                             else None)
             in case n_factor of
                  Some n \<Rightarrow>
                    if jgt n (Fin 0) \<and> jgt a_dipole (Fin 0) then
                      Some (jmul (jmul (jmul (jmul Math_PI n) (jadd n (Fin 1)))
                                       (jadd n (Fin 2))) a_dipole)
                    else if jgt a_dipole (Fin 0) then
                      Some (jmul (jmul (Fin 2) Math_PI) a_dipole)
                    else None
                | None \<Rightarrow> None)
          else None
      | _ \<Rightarrow> None)"

section \<open>Text handling\<close>

text \<open>
  Strings are lists of characters. The white space of \<^verbatim>\<open>String.prototype.trim\<close> and
  of \<^verbatim>\<open>parseFloat\<close> is modelled on its ASCII part: tab, line feed, vertical tab, form
  feed, carriage return and space.
\<close>

definition isWhiteSpace :: "char \<Rightarrow> bool" where
  "isWhiteSpace c =
     (c = CHR 0x09 \<or> c = CHR 0x0A \<or> c = CHR 0x0B \<or> c = CHR 0x0C \<or> c = CHR 0x0D
      \<or> c = CHR '' '')"

definition trim :: "string \<Rightarrow> string" where
  "trim s = rev (dropWhile isWhiteSpace (rev (dropWhile isWhiteSpace s)))"

text \<open>\<^verbatim>\<open>s.split(/\r?\n/)\<close>\<close>

fun split_newlines :: "string \<Rightarrow> string list" where
  "split_newlines [] = ['''']"
| "split_newlines (c # cs) =
     (if c = CHR 0x0A then [] # split_newlines cs
      else if c = CHR 0x0D \<and> cs \<noteq> [] \<and> hd cs = CHR 0x0A then [] # split_newlines (tl cs)
      else (case split_newlines cs of
              l # ls \<Rightarrow> (c # l) # ls
            | [] \<Rightarrow> [c # '''']))"

text \<open>\<^verbatim>\<open>s.split(/[\t, ]+/)\<close>: a maximal run of tabs, commas and spaces separates two parts.\<close>

definition isSep :: "char \<Rightarrow> bool" where
  "isSep c = (c = CHR 0x09 \<or> c = CHR '','' \<or> c = CHR '' '')"

function split_seps :: "string \<Rightarrow> string list" where
  "split_seps [] = ['''']"
| "split_seps (c # cs) =
     (if isSep c then [] # split_seps (dropWhile isSep cs)
      else (case split_seps cs of
              l # ls \<Rightarrow> (c # l) # ls
            | [] \<Rightarrow> [c # '''']))"
  by pat_completeness auto
termination
  by (relation "measure length") (auto simp: less_Suc_eq_le length_dropWhile_le)

text \<open>\<^verbatim>\<open>.filter(Boolean)\<close> on an array of strings keeps the non-empty ones.\<close>

definition filter_Boolean :: "string list \<Rightarrow> string list" where
  "filter_Boolean parts = filter (\<lambda>p. p \<noteq> []) parts"

text \<open>
  \<^verbatim>\<open>/word/i.test(line)\<close> for a word of lower-case ASCII letters: some position of the
  line starts with the word, letters compared without case.
\<close>

definition toLowerASCII :: "char \<Rightarrow> char" where
  "toLowerASCII c =
     (case map_of (zip ''ABCDEFGHIJKLMNOPQRSTUVWXYZ'' ''abcdefghijklmnopqrstuvwxyz'') c of
        None \<Rightarrow> c
      | Some l \<Rightarrow> l)"

fun starts_with :: "string \<Rightarrow> string \<Rightarrow> bool" where
  "starts_with [] s = True"
| "starts_with (p # ps) [] = False"
| "starts_with (p # ps) (c # cs) = (p = c \<and> starts_with ps cs)"

fun contains :: "string \<Rightarrow> string \<Rightarrow> bool" where
  "contains word [] = (word = [])"
| "contains word (c # cs) = (starts_with word (c # cs) \<or> contains word cs)"

definition test_i :: "string \<Rightarrow> string \<Rightarrow> bool" where
  "test_i word line = contains word (map toLowerASCII line)"

subsection \<open>\<^verbatim>\<open>parseFloat\<close>\<close>

text \<open>
  \<^verbatim>\<open>parseFloat\<close> skips leading white space and reads the longest prefix that is a
  decimal literal: an optional sign, then \<^verbatim>\<open>Infinity\<close> or digits with an optional
  fraction and an optional exponent. Without such a prefix the result is NaN. The value
  is the exact value of the decimal text, or an infinity beyond the overflow boundary; the
  same holds for the literal \<^verbatim>\<open>0.519\<close> of the program.
\<close>

definition isDigit :: "char \<Rightarrow> bool" where
  "isDigit c = (c \<in> set ''0123456789'')"

definition digit_val :: "char \<Rightarrow> nat" where
  "digit_val c = of_char c - 48"

definition digits_val :: "string \<Rightarrow> nat" where
  "digits_val ds = foldl (\<lambda>n c. 10 * n + digit_val c) 0 ds"

definition strip_sign :: "string \<Rightarrow> int \<times> string" where
  "strip_sign s =
     (case s of
        c # cs \<Rightarrow> if c = CHR ''-'' then (- 1, cs) else if c = CHR ''+'' then (1, cs) else (1, s)
      | [] \<Rightarrow> (1, []))"

definition parse_exponent :: "string \<Rightarrow> int" where
  "parse_exponent r =
     (case r of
        c # cs \<Rightarrow>
          if c = CHR ''e'' \<or> c = CHR ''E'' then
            (let (sg, ds0) = strip_sign cs; ds = takeWhile isDigit ds0
             in if ds = [] then 0 else sg * int (digits_val ds))
          else 0
      | [] \<Rightarrow> 0)"

definition pow10 :: "int \<Rightarrow> real" where
  "pow10 e = (if 0 \<le> e then 10 ^ nat e else 1 / 10 ^ nat (- e))"

definition parseFloat :: "string \<Rightarrow> jsnum" where
  "parseFloat s =
     (let (sg, t) = strip_sign (dropWhile isWhiteSpace s)
      in if starts_with ''Infinity'' t then (if sg < 0 then NInf else PInf)
         else
           (let ip = takeWhile isDigit t;
                r1 = dropWhile isDigit t;
                dot = (r1 \<noteq> [] \<and> hd r1 = CHR ''.'');
                fp = (if dot then takeWhile isDigit (tl r1) else []);
                r2 = (if dot then dropWhile isDigit (tl r1) else r1)
            in if ip = [] \<and> fp = [] then NaN
               else fl (of_int sg
                        * (real (digits_val ip) + real (digits_val fp) / 10 ^ length fp)
                        * pow10 (parse_exponent r2))))"

text \<open>
  \<^verbatim>\<open>parseFloat(parts[i])\<close>: reading past the end of the array gives
  \<^verbatim>\<open>undefined\<close>, and \<^verbatim>\<open>parseFloat(undefined)\<close> is NaN.
\<close>

definition parseFloat_at :: "string list \<Rightarrow> nat \<Rightarrow> jsnum" where
  "parseFloat_at parts i = (if i < length parts then parseFloat (parts ! i) else NaN)"

section \<open>VLF parser\<close>

record vlf =
  station :: jsnum
  inPhase :: jsnum
  quadrature :: jsnum

text \<open>\<^verbatim>\<open>text.split(/\r?\n/).map(l => l.trim()).filter(Boolean)\<close>\<close>

definition vlf_lines :: "string \<Rightarrow> string list" where
  "vlf_lines text = filter_Boolean (map trim (split_newlines text))"

text \<open>\<^verbatim>\<open>/station|inphase/i.test(line)\<close>\<close>

definition vlf_header :: "string \<Rightarrow> bool" where
  "vlf_header line = (test_i ''station'' line \<or> test_i ''inphase'' line)"

text \<open>\<^verbatim>\<open>line.split(/[\t, ]+/).map(p => p.trim()).filter(Boolean)\<close>\<close>

definition vlf_parts :: "string \<Rightarrow> string list" where
  "vlf_parts line = filter_Boolean (map trim (split_seps line))"

text \<open>
  The body of the loop over the lines of \<^verbatim>\<open>parseVLFData\<close>: \<open>None\<close> when the line
  is left by \<^verbatim>\<open>continue\<close> or fails the final test, otherwise the record pushed.
\<close>

definition vlf_row :: "string \<Rightarrow> vlf option" where
  "vlf_row line =
     (if vlf_header line then None
      else
        (let parts = vlf_parts line
         in if length parts < 3 then None
            else
              (let station = parseFloat (parts ! 0);
                   inPhase = parseFloat (parts ! 1);
                   quadrature = parseFloat (parts ! 2)
               in if isFinite station \<and> isFinite inPhase \<and> isFinite quadrature then
                    Some \<lparr>station = station, inPhase = inPhase, quadrature = quadrature\<rparr>
                  else None)))"

fun vlf_loop :: "string list \<Rightarrow> vlf list \<Rightarrow> vlf list" where
  "vlf_loop [] data = data"
| "vlf_loop (line # lines) data =
     vlf_loop lines (case vlf_row line of None \<Rightarrow> data | Some r \<Rightarrow> data @ [r])"

definition parseVLFData :: "string \<Rightarrow> vlf list" where
  "parseVLFData text = vlf_loop (vlf_lines text) []"

section \<open>Resistivity parser\<close>

record resistivity =
  arrayType :: string
  positions :: "jsnum list"
  spacing :: jsnum
  midpoint :: jsnum
  depth :: jsnum
  kFactor :: jsnum
  resistance :: jsnum
  apparentResistivity :: jsnum
  isCalculated :: bool

text \<open>
  The page, as far as the parser reads it: the \<^verbatim>\<open>value\<close> of the element with a given
  id. \<^verbatim>\<open>getElementById\<close> gives \<^verbatim>\<open>null\<close> for an id the page does not have, and
  reading \<^verbatim>\<open>.value\<close> of \<^verbatim>\<open>null\<close> throws a TypeError.
\<close>

type_synonym document = "string \<rightharpoonup> string"

datatype js_error = TypeError

text \<open>\<^verbatim>\<open>text.trim().split(/\r?\n/).map(l => l.trim()).filter(Boolean)\<close>\<close>

definition resistivity_lines :: "string \<Rightarrow> string list" where
  "resistivity_lines text = filter_Boolean (map trim (split_newlines (trim text)))"

text \<open>\<^verbatim>\<open>/electrode|pos|station/i.test(line)\<close>\<close>

definition resistivity_header :: "string \<Rightarrow> bool" where
  "resistivity_header line =
     (test_i ''electrode'' line \<or> test_i ''pos'' line \<or> test_i ''station'' line)"

text \<open>
  Step 1 of the loop body: a supplied K that is not finite or is zero is replaced by the
  computed one; \<open>None\<close> is the \<^verbatim>\<open>continue\<close> taken when the computed one is
  \<^verbatim>\<open>null\<close>, not finite or zero.
\<close>

definition resolve_kFactor :: "string \<Rightarrow> jsnum list \<Rightarrow> jsnum \<Rightarrow> jsnum option" where
  "resolve_kFactor arrType pos k0 =
     (if \<not> isFinite k0 \<or> k0 = Fin 0 then
        (case calculateGeometricFactor arrType pos of
           None \<Rightarrow> None
         | Some k \<Rightarrow> if \<not> isFinite k \<or> k = Fin 0 then None else Some k)
      else Some k0)"

text \<open>
  Step 2 of the loop body: the pair \<^verbatim>\<open>(apparentResistivity, isCalculated)\<close> after
  the step, \<open>None\<close> for its \<^verbatim>\<open>continue\<close>.
\<close>

definition resolve_rho :: "jsnum \<Rightarrow> jsnum \<Rightarrow> jsnum \<Rightarrow> (jsnum \<times> bool) option" where
  "resolve_rho k r rho0 =
     (if \<not> isFinite rho0 then
        (if isFinite k \<and> isFinite r then Some (jmul k r, True) else None)
      else Some (rho0, False))"

definition resistivity_row :: "string \<Rightarrow> string \<Rightarrow> resistivity option" where
  "resistivity_row arrType line =
     (if resistivity_header line then None
      else
        (let parts = filter_Boolean (split_seps line)
         in if length parts < 6 then None
            else
              (let pos = map parseFloat (take 4 parts);
                   k0 = parseFloat (parts ! 4);
                   r = parseFloat (parts ! 5);
                   rho0 = parseFloat_at parts 6
               in if list_ex isNaN pos then None
                  else
                    (let spacingA = jabs (jsub (pos ! 1) (pos ! 0))
                     in if jle spacingA (Fin 0) then None
                        else
                          (case resolve_kFactor arrType pos k0 of
                             None \<Rightarrow> None
                           | Some k \<Rightarrow>
                               (case resolve_rho k r rho0 of
                                  None \<Rightarrow> None
                                | Some (rho, calc) \<Rightarrow>
                                    (let mid = jdiv (jadd (pos ! 0) (pos ! 3)) (Fin 2);
                                         dep = jmul spacingA (Fin (519 / 1000))
                                     in if isFinite mid \<and> isFinite rho then
                                          Some \<lparr>arrayType = arrType, positions = pos,
                                                spacing = spacingA, midpoint = mid,
                                                depth = dep, kFactor = k, resistance = r,
                                                apparentResistivity = rho,
                                                isCalculated = calc\<rparr>
                                        else None)))))))"

fun resistivity_loop :: "string \<Rightarrow> string list \<Rightarrow> resistivity list \<Rightarrow> resistivity list" where
  "resistivity_loop arrType [] data = data"
| "resistivity_loop arrType (line # lines) data =
     resistivity_loop arrType lines
       (case resistivity_row arrType line of None \<Rightarrow> data | Some r \<Rightarrow> data @ [r])"

text \<open>
  \<^verbatim>\<open>parseResistivityData(text)\<close> takes the text only; the array type is read from
  the page inside the function.
\<close>

definition parseResistivityData :: "document \<Rightarrow> string \<Rightarrow> js_error + resistivity list" where
  "parseResistivityData doc text =
     (case doc ''arrayType'' of
        None \<Rightarrow> Inl TypeError
      | Some arrType \<Rightarrow> Inr (resistivity_loop arrType (resistivity_lines text) []))"

section \<open>Karous-Hjelt filter\<close>

record point =
  x :: jsnum
  y :: jsnum

text \<open>
  The loop \<^verbatim>\<open>for (let i = 0; i < vlfData.length - 1; i++)\<close> of
  \<^verbatim>\<open>calculateKarousHjelt\<close>, with the array \<^verbatim>\<open>khData\<close> as accumulator.
\<close>

function kh_loop :: "vlf list \<Rightarrow> nat \<Rightarrow> point list \<Rightarrow> point list" where
  "kh_loop vlfData i khData =
     (if int i < int (length vlfData) - 1 then
        (let p1 = vlfData ! i;
             p2 = vlfData ! (i + 1);
             d_inPhase = jsub (inPhase p2) (inPhase p1);
             d_station = jsub (station p2) (station p1)
         in if d_station \<noteq> Fin 0 then
              (let kh_value = jdiv d_inPhase d_station;
                   midpoint = jdiv (jadd (station p1) (station p2)) (Fin 2)
               in kh_loop vlfData (i + 1) (khData @ [\<lparr>x = midpoint, y = kh_value\<rparr>]))
            else kh_loop vlfData (i + 1) khData)
      else khData)"
  by pat_completeness auto
termination
  by (relation "measure (\<lambda>(vlfData, i, khData). length vlfData - i)") auto

definition calculateKarousHjelt :: "vlf list \<Rightarrow> point list" where
  "calculateKarousHjelt vlfData =
     (if length vlfData < 2 then [] else kh_loop vlfData 0 [])"

text \<open>
  The filter as the specification words it: two neighbouring records have a zero gap when
  the difference of their stations is zero; every other pair gives the point at the mean
  of the two stations whose value is the difference quotient of the in-phase readings.
\<close>

definition zero_gap :: "vlf \<Rightarrow> vlf \<Rightarrow> bool" where
  "zero_gap a b = (jsub (station b) (station a) = Fin 0)"

definition kh_point :: "vlf \<Rightarrow> vlf \<Rightarrow> point" where
  "kh_point a b =
     \<lparr>x = jdiv (jadd (station a) (station b)) (Fin 2),
      y = jdiv (jsub (inPhase b) (inPhase a)) (jsub (station b) (station a))\<rparr>"

definition kh_pair :: "vlf list \<Rightarrow> nat \<Rightarrow> point list" where
  "kh_pair v i =
     (if zero_gap (v ! i) (v ! (i + 1)) then [] else [kh_point (v ! i) (v ! (i + 1))])"

section \<open>Specification-side descriptions of a resistivity row\<close>

text \<open>
  The invariants that the data model states for a resistivity record, over the program's
  own arithmetic.
\<close>

definition record_invariant :: "resistivity \<Rightarrow> bool" where
  "record_invariant r =
     (spacing r = jabs (jsub (positions r ! 1) (positions r ! 0))
      \<and> jgt (spacing r) (Fin 0)
      \<and> midpoint r = jdiv (jadd (positions r ! 0) (positions r ! 3)) (Fin 2)
      \<and> depth r = jmul (spacing r) (Fin (519 / 1000))
      \<and> isFinite (apparentResistivity r)
      \<and> isFinite (kFactor r) \<and> kFactor r \<noteq> Fin 0)"

text \<open>
  The quantities of one row named as the loop body of \<^verbatim>\<open>parseResistivityData\<close>
  computes them. \<open>row_kFactor\<close> is the geometric factor after step 1 for a row that has
  passed the header, column-count, position and spacing tests, and \<open>None\<close> for a row
  that has left the loop body before or in that step.
\<close>

definition row_parts :: "string \<Rightarrow> string list" where
  "row_parts line = filter_Boolean (split_seps line)"

definition row_positions :: "string \<Rightarrow> jsnum list" where
  "row_positions line = map parseFloat (take 4 (row_parts line))"

definition row_spacing :: "string \<Rightarrow> jsnum" where
  "row_spacing line = jabs (jsub (row_positions line ! 1) (row_positions line ! 0))"

definition row_midpoint :: "string \<Rightarrow> jsnum" where
  "row_midpoint line = jdiv (jadd (row_positions line ! 0) (row_positions line ! 3)) (Fin 2)"

definition row_resistance :: "string \<Rightarrow> jsnum" where
  "row_resistance line = parseFloat (row_parts line ! 5)"

definition row_supplied_rho :: "string \<Rightarrow> jsnum" where
  "row_supplied_rho line = parseFloat_at (row_parts line) 6"

definition row_kFactor :: "string \<Rightarrow> string \<Rightarrow> jsnum option" where
  "row_kFactor arrType line =
     (if resistivity_header line \<or> length (row_parts line) < 6
         \<or> list_ex isNaN (row_positions line) \<or> jle (row_spacing line) (Fin 0)
      then None
      else resolve_kFactor arrType (row_positions line) (parseFloat (row_parts line ! 4)))"

definition row_record :: "string \<Rightarrow> string \<Rightarrow> jsnum \<Rightarrow> jsnum \<Rightarrow> bool \<Rightarrow> resistivity" where
  "row_record arrType line k rho calc =
     \<lparr>arrayType = arrType, positions = row_positions line, spacing = row_spacing line,
      midpoint = row_midpoint line, depth = jmul (row_spacing line) (Fin (519 / 1000)),
      kFactor = k, resistance = row_resistance line, apparentResistivity = rho,
      isCalculated = calc\<rparr>"

section \<open>Specification-side descriptions of a VLF line\<close>

text \<open>
  A line is accepted when it is not a header line, has at least three fields and its
  first three fields parse to finite numbers; its record holds the three parsed values.
\<close>

definition vlf_accepts :: "string \<Rightarrow> bool" where
  "vlf_accepts line =
     (\<not> vlf_header line \<and> 3 \<le> length (vlf_parts line)
      \<and> isFinite (parseFloat (vlf_parts line ! 0))
      \<and> isFinite (parseFloat (vlf_parts line ! 1))
      \<and> isFinite (parseFloat (vlf_parts line ! 2)))"

definition vlf_record_of :: "string \<Rightarrow> vlf" where
  "vlf_record_of line =
     \<lparr>station = parseFloat (vlf_parts line ! 0),
      inPhase = parseFloat (vlf_parts line ! 1),
      quadrature = parseFloat (vlf_parts line ! 2)\<rparr>"

text \<open>
  Well-formed three-column numeric lines as text: three tokens written with the characters
  of decimal literals that \<^verbatim>\<open>parseFloat\<close> reads as finite numbers, with a non-empty
  run of tabs, commas and spaces between two tokens; lines are joined by line feeds.
\<close>

definition numeric_char :: "char \<Rightarrow> bool" where
  "numeric_char c =
     (isDigit c \<or> c = CHR ''+'' \<or> c = CHR ''-'' \<or> c = CHR ''.'' \<or> c = CHR ''e''
      \<or> c = CHR ''E'')"

definition numeric_token :: "string \<Rightarrow> bool" where
  "numeric_token s = (s \<noteq> [] \<and> list_all numeric_char s \<and> isFinite (parseFloat s))"

definition separator :: "string \<Rightarrow> bool" where
  "separator s = (s \<noteq> [] \<and> list_all isSep s)"

text \<open>A row of three tokens and the two separators between them, and the line it is written as.\<close>

type_synonym vlf_cells = "string \<times> string \<times> string \<times> string \<times> string"

fun well_formed_cells :: "vlf_cells \<Rightarrow> bool" where
  "well_formed_cells (a, s1, b, s2, c) =
     (numeric_token a \<and> separator s1 \<and> numeric_token b \<and> separator s2 \<and> numeric_token c)"

fun line_of_cells :: "vlf_cells \<Rightarrow> string" where
  "line_of_cells (a, s1, b, s2, c) = a @ s1 @ b @ s2 @ c"

fun record_of_cells :: "vlf_cells \<Rightarrow> vlf" where
  "record_of_cells (a, s1, b, s2, c) =
     \<lparr>station = parseFloat a, inPhase = parseFloat b, quadrature = parseFloat c\<rparr>"

fun join_lines :: "string list \<Rightarrow> string" where
  "join_lines [] = []"
| "join_lines [l] = l"
| "join_lines (l # ls) = l @ CHR 0x0A # join_lines ls"

definition clean_line :: "string \<Rightarrow> bool" where
  "clean_line l = (l \<noteq> [] \<and> trim l = l \<and> list_all (\<lambda>c. c \<noteq> CHR 0x0A \<and> c \<noteq> CHR 0x0D) l)"

section \<open>Grouping for the resistivity plot\<close>

text \<open>
  The string that \<^verbatim>\<open>v.toFixed(2)\<close> returns. For a finite \<open>v\<close> with \<open>|v| < 10^21\<close> it is
  an optional minus sign and the decimal digits, with two fraction digits, of \<open>n / 100\<close>,
  where \<open>n\<close> is the integer nearest to \<open>|v| * 100\<close>, the larger one in a tie; this string
  is represented by the sign and \<open>n\<close>. For every other \<open>v\<close> the result is
  \<^verbatim>\<open>String(v)\<close>, which is represented by \<open>v\<close>. Two strings are equal exactly when
  their representations are.
\<close>

datatype fixed_key = Fixed bool nat | Verbatim jsnum

definition toFixed2 :: "jsnum \<Rightarrow> fixed_key" where
  "toFixed2 v =
     (case v of
        Fin r \<Rightarrow> if \<bar>r\<bar> < 10 ^ 21 then Fixed (r < 0) (nat \<lfloor>\<bar>r\<bar> * 100 + 1 / 2\<rfloor>)
                 else Verbatim v
      | _ \<Rightarrow> Verbatim v)"

text \<open>\<^verbatim>\<open>Number(key)\<close> for such a string.\<close>

definition Number_of_key :: "fixed_key \<Rightarrow> jsnum" where
  "Number_of_key k =
     (case k of
        Fixed neg n \<Rightarrow> Fin ((if neg then - 1 else 1) * (real n / 100))
      | Verbatim v \<Rightarrow> v)"

text \<open>
  The object \<^verbatim>\<open>groupedData\<close> as the list of its entries in insertion order, which
  is the order of \<^verbatim>\<open>Object.keys\<close> for keys of this form. One round of the
  \<^verbatim>\<open>forEach\<close> creates the entry of the key when it is missing and appends the record.
\<close>

fun group_push ::
  "(fixed_key \<times> resistivity list) list \<Rightarrow> fixed_key \<Rightarrow> resistivity
   \<Rightarrow> (fixed_key \<times> resistivity list) list" where
  "group_push [] key d = [(key, [d])]"
| "group_push ((k, ds) # g) key d =
     (if k = key then (k, ds @ [d]) # g else (k, ds) # group_push g key d)"

definition groupedData :: "resistivity list \<Rightarrow> (fixed_key \<times> resistivity list) list" where
  "groupedData data = foldl (\<lambda>g d. group_push g (toFixed2 (spacing d)) d) [] data"

text \<open>
  \<^verbatim>\<open>Array.prototype.sort\<close> with a comparator is a stable sort. It is modelled as
  insertion sort: an element goes behind those that the comparator puts before it, that
  is, for which the comparator's result is positive; a NaN result counts as zero.
\<close>

fun js_insert :: "('a \<Rightarrow> 'a \<Rightarrow> jsnum) \<Rightarrow> 'a \<Rightarrow> 'a list \<Rightarrow> 'a list" where
  "js_insert cmp a [] = [a]"
| "js_insert cmp a (b # bs) =
     (if jgt (cmp a b) (Fin 0) then b # js_insert cmp a bs else a # b # bs)"

definition js_sort :: "('a \<Rightarrow> 'a \<Rightarrow> jsnum) \<Rightarrow> 'a list \<Rightarrow> 'a list" where
  "js_sort cmp xs = foldr (js_insert cmp) xs []"

definition point_of :: "resistivity \<Rightarrow> point" where
  "point_of p = \<lparr>x = midpoint p, y = apparentResistivity p\<rparr>"

text \<open>
  What one round of the loop over the sorted spacings contributes to \<^verbatim>\<open>datasets\<close>:
  the spacing of the label and the two point lists. (The data set of the calculated
  points is pushed only when that list is not empty.)
\<close>

record series =
  series_spacing :: jsnum
  measuredPoints :: "point list"
  calculatedPoints :: "point list"

text \<open>
  The loop over the sorted spacings. \<^verbatim>\<open>groupedData[spacing.toFixed(2)]\<close> is
  \<^verbatim>\<open>undefined\<close> for a key that the object does not have, and calling \<^verbatim>\<open>sort\<close> on
  it throws a TypeError.
\<close>

fun series_loop ::
  "(fixed_key \<times> resistivity list) list \<Rightarrow> jsnum list \<Rightarrow> series list
   \<Rightarrow> js_error + series list" where
  "series_loop g [] datasets = Inr datasets"
| "series_loop g (s # ss) datasets =
     (case map_of g (toFixed2 s) of
        None \<Rightarrow> Inl TypeError
      | Some grp \<Rightarrow>
          (let points = js_sort (\<lambda>a b. jsub (midpoint a) (midpoint b)) grp;
               measured = map point_of (filter (\<lambda>p. \<not> isCalculated p) points);
               calculated = map point_of (filter (\<lambda>p. isCalculated p) points)
           in series_loop g ss
                (datasets @ [\<lparr>series_spacing = s, measuredPoints = measured,
                               calculatedPoints = calculated\<rparr>])))"

text \<open>
  The grouping part of \<^verbatim>\<open>plotResistivityData\<close>, which the specification calls
  \<^verbatim>\<open>groupBySpacing\<close>: the keys are turned into numbers by
  \<^verbatim>\<open>Object.keys(groupedData).map(Number)\<close> and sorted by \<^verbatim>\<open>(a, b) => a - b\<close>.
\<close>

definition groupBySpacing :: "resistivity list \<Rightarrow> js_error + series list" where
  "groupBySpacing data =
     (let g = groupedData data
      in series_loop g (js_sort (\<lambda>a b. jsub a b) (map (\<lambda>e. Number_of_key (fst e)) g)) [])"

text \<open>
  No double lies in the last \<open>0.005\<close> below \<open>10^21\<close>: the doubles of that size are
  multiples of \<open>2^17\<close>. A real number there would be printed by \<^verbatim>\<open>toFixed(2)\<close> as
  \<^verbatim>\<open>1000000000000000000000.00\<close> and read back as \<open>10^21\<close>, which is printed in exponent
  form. The reals of the model that are not doubles in this way are set apart.
\<close>

definition off_toFixed_boundary :: "jsnum \<Rightarrow> bool" where
  "off_toFixed_boundary v =
     (case v of Fin r \<Rightarrow> \<bar>r\<bar> < 10 ^ 21 - 1 / 200 \<or> 10 ^ 21 \<le> \<bar>r\<bar> | _ \<Rightarrow> True)"

text \<open>The order of the numbers that are not NaN, as a linear order on pairs.\<close>

fun rank :: "jsnum \<Rightarrow> int \<times> real" where
  "rank (Fin r) = (0, r)"
| "rank PInf = (1, 0)"
| "rank NInf = (- 1, 0)"
| "rank NaN = (2, 0)"

text \<open>
  Names for the statement of the grouping property: the records of an entry of the
  grouped object, the series built from an entry, the records whose spacing is printed
  like a given number, and the records that the grouping is stated for, which are those
  with a positive spacing and a finite midpoint, as the parser emits them, whose spacing
  is off the boundary described above.
\<close>

definition members :: "(fixed_key \<times> resistivity list) list \<Rightarrow> fixed_key \<Rightarrow> resistivity list" where
  "members g k = (case map_of g k of None \<Rightarrow> [] | Some ds \<Rightarrow> ds)"

definition plottable :: "resistivity \<Rightarrow> bool" where
  "plottable r =
     (jgt (spacing r) (Fin 0) \<and> isFinite (midpoint r) \<and> off_toFixed_boundary (spacing r))"

definition bucket :: "resistivity list \<Rightarrow> jsnum \<Rightarrow> resistivity list" where
  "bucket data s = filter (\<lambda>r. toFixed2 (spacing r) = toFixed2 s) data"

definition series_of :: "(fixed_key \<times> resistivity list) list \<Rightarrow> jsnum \<Rightarrow> series" where
  "series_of g s =
     (let points = js_sort (\<lambda>a b. jsub (midpoint a) (midpoint b)) (members g (toFixed2 s))
      in \<lparr>series_spacing = s,
          measuredPoints = map point_of (filter (\<lambda>p. \<not> isCalculated p) points),
          calculatedPoints = map point_of (filter (\<lambda>p. isCalculated p) points)\<rparr>)"

section \<open>Evaluation on concrete inputs\<close>

text \<open>The defining equations that the simplifier unfolds to run the model on a given input.\<close>

lemmas num_eval = fl_def DBL_OVERFLOW_def jsub_def jgt_def jle_def inf_of_sign_def Math_PI_def

lemmas text_eval = filter_Boolean_def trim_def isWhiteSpace_def isSep_def test_i_def
  toLowerASCII_def isDigit_def digit_val_def digits_val_def strip_sign_def
  parse_exponent_def pow10_def parseFloat_def parseFloat_at_def

section \<open>Properties of the Karous-Hjelt filter\<close>

lemma kh_loop_concat:
  "kh_loop v i acc = acc @ concat (map (kh_pair v) [i..<length v - 1])"
proof (induction v i acc rule: kh_loop.induct)
  case (1 v i acc)
  show ?case
  proof (cases "int i < int (length v) - 1")
    case False
    then have "[i..<length v - 1] = []" by simp
    with False show ?thesis by (subst kh_loop.simps) (simp del: kh_loop.simps)
  next
    case True
    then have "[i..<length v - 1] = i # [i + 1..<length v - 1]"
      by (simp add: upt_conv_Cons)
    then have up: "concat (map (kh_pair v) [i..<length v - 1]) =
                   kh_pair v i @ concat (map (kh_pair v) [i + 1..<length v - 1])"
      by simp
    show ?thesis
    proof (cases "zero_gap (v ! i) (v ! (i + 1))")
      case z: True
      then have "kh_loop v i acc = kh_loop v (i + 1) acc"
        using True by (subst kh_loop.simps) (simp add: zero_gap_def Let_def del: kh_loop.simps)
      also have "\<dots> = acc @ concat (map (kh_pair v) [i + 1..<length v - 1])"
        using "1.IH"(2) [OF True refl refl refl refl] z
        by (simp add: zero_gap_def del: kh_loop.simps)
      finally show ?thesis using z by (simp only: up) (simp add: kh_pair_def)
    next
      case nz: False
      then have "kh_loop v i acc = kh_loop v (i + 1) (acc @ [kh_point (v ! i) (v ! (i + 1))])"
        using True
        by (subst kh_loop.simps) (simp add: zero_gap_def kh_point_def Let_def del: kh_loop.simps)
      also have "\<dots> = (acc @ [kh_point (v ! i) (v ! (i + 1))])
                         @ concat (map (kh_pair v) [i + 1..<length v - 1])"
        using "1.IH"(1) [OF True refl refl refl refl _ refl refl] nz
        by (simp add: zero_gap_def kh_point_def del: kh_loop.simps)
      finally show ?thesis using nz by (simp only: up) (simp add: kh_pair_def)
    qed
  qed
qed

lemma concat_map_if:
  "concat (map (\<lambda>i. if P i then [] else [f i]) xs) = map f (filter (\<lambda>i. \<not> P i) xs)"
  by (induction xs) auto

lemma kh_as_pairs:
  "calculateKarousHjelt v =
     map (\<lambda>i. kh_point (v ! i) (v ! (i + 1)))
         (filter (\<lambda>i. \<not> zero_gap (v ! i) (v ! (i + 1))) [0..<length v - 1])"
proof (cases "length v < 2")
  case True
  then have "[0..<length v - 1] = []" by auto
  with True show ?thesis by (simp add: calculateKarousHjelt_def)
next
  case False
  have "concat (map (kh_pair v) [0..<length v - 1]) =
        map (\<lambda>i. kh_point (v ! i) (v ! (i + 1)))
         (filter (\<lambda>i. \<not> zero_gap (v ! i) (v ! (i + 1))) [0..<length v - 1])"
    unfolding kh_pair_def by (rule concat_map_if)
  with False show ?thesis
    by (simp add: calculateKarousHjelt_def kh_loop_concat del: kh_loop.simps)
qed

text \<open>
  C5. For a sequence of at least two records the filter goes through the neighbouring
  pairs \<open>(i, i+1)\<close> in input order, skips a pair whose station difference is zero and
  emits for every other pair the point \<open>kh_point\<close>; so the output has \<open>N - 1\<close> entries
  less the number of zero-gap pairs.
\<close>

theorem kh_adjacent_pairs:
  assumes "2 \<le> length v"
  shows "calculateKarousHjelt v =
           map (\<lambda>i. kh_point (v ! i) (v ! (i + 1)))
               (filter (\<lambda>i. \<not> zero_gap (v ! i) (v ! (i + 1))) [0..<length v - 1])
         \<and> length (calculateKarousHjelt v) =
           length v - 1 - card {i. i < length v - 1 \<and> zero_gap (v ! i) (v ! (i + 1))}"
proof -
  let ?P = "\<lambda>i. zero_gap (v ! i) (v ! (i + 1))"
  let ?n = "length v - 1"
  have a: "length (filter ?P [0..<?n]) = card {i. i < ?n \<and> ?P i}"
  proof -
    have "{i. i < ?n \<and> ?P ([0..<?n] ! i)} = {i. i < ?n \<and> ?P i}" by auto
    then show ?thesis by (simp add: length_filter_conv_card)
  qed
  have b: "length (filter ?P [0..<?n]) + length (filter (\<lambda>i. \<not> ?P i) [0..<?n]) = ?n"
    using sum_length_filter_compl [of ?P "[0..<?n]"] by simp
  show ?thesis using a b by (simp add: kh_as_pairs)
qed

text \<open>
  Three records, the last two at the same station: the first pair gives the point
  \<open>(5, 0.71)\<close> of the documented example, the second pair is skipped.
\<close>

theorem kh_adjacent_pairs_witness:
  "2 \<le> length [\<lparr>station = Fin 0, inPhase = Fin (452 / 10), quadrature = Fin 1\<rparr>,
               \<lparr>station = Fin 10, inPhase = Fin (523 / 10), quadrature = Fin 2\<rparr>,
               \<lparr>station = Fin 10, inPhase = Fin 60, quadrature = Fin 3\<rparr>]
   \<and> calculateKarousHjelt
       [\<lparr>station = Fin 0, inPhase = Fin (452 / 10), quadrature = Fin 1\<rparr>,
        \<lparr>station = Fin 10, inPhase = Fin (523 / 10), quadrature = Fin 2\<rparr>,
        \<lparr>station = Fin 10, inPhase = Fin 60, quadrature = Fin 3\<rparr>]
     = [\<lparr>x = Fin 5, y = Fin (71 / 100)\<rparr>]"
  using kh_adjacent_pairs
    [of "[\<lparr>station = Fin 0, inPhase = Fin (452 / 10), quadrature = Fin 1\<rparr>,
          \<lparr>station = Fin 10, inPhase = Fin (523 / 10), quadrature = Fin 2\<rparr>,
          \<lparr>station = Fin 10, inPhase = Fin 60, quadrature = Fin 3\<rparr>]"]
  by (simp add: upt_rec zero_gap_def kh_point_def num_eval)

text \<open>
  C8. On fewer than two records, the empty sequence included, the filter returns the
  empty sequence; the function is total, so no error is raised.
\<close>

theorem kh_short_input_empty:
  "length vlfData < 2 \<Longrightarrow> calculateKarousHjelt vlfData = []"
  by (simp add: calculateKarousHjelt_def)

theorem kh_short_input_empty_witness:
  "length [\<lparr>station = Fin 0, inPhase = Fin 1, quadrature = Fin 2\<rparr>] < 2
   \<and> calculateKarousHjelt [\<lparr>station = Fin 0, inPhase = Fin 1, quadrature = Fin 2\<rparr>] = []"
  using kh_short_input_empty [of "[\<lparr>station = Fin 0, inPhase = Fin 1, quadrature = Fin 2\<rparr>]"]
  by simp

text \<open>
  C10. The output of the filter does not depend on the quadrature field: two sequences
  of the same length that agree at every index on station and in-phase reading give the
  same output.
\<close>

theorem kh_ignores_quadrature:
  assumes len: "length v = length w"
    and agree: "\<forall>i < length v. station (v ! i) = station (w ! i)
                              \<and> inPhase (v ! i) = inPhase (w ! i)"
  shows "calculateKarousHjelt v = calculateKarousHjelt w"
proof -
  let ?is = "[0..<length v - 1]"
  have z: "zero_gap (v ! i) (v ! (i + 1)) = zero_gap (w ! i) (w ! (i + 1))"
    and p: "kh_point (v ! i) (v ! (i + 1)) = kh_point (w ! i) (w ! (i + 1))"
    if "i \<in> set ?is" for i
  proof -
    from that have "i < length v" "i + 1 < length v" by auto
    with agree have "station (v ! i) = station (w ! i)" "inPhase (v ! i) = inPhase (w ! i)"
      "station (v ! (i + 1)) = station (w ! (i + 1))"
      "inPhase (v ! (i + 1)) = inPhase (w ! (i + 1))"
      by blast+
    then show "zero_gap (v ! i) (v ! (i + 1)) = zero_gap (w ! i) (w ! (i + 1))"
      and "kh_point (v ! i) (v ! (i + 1)) = kh_point (w ! i) (w ! (i + 1))"
      by (simp_all add: zero_gap_def kh_point_def)
  qed
  have f: "filter (\<lambda>i. \<not> zero_gap (v ! i) (v ! (i + 1))) ?is
         = filter (\<lambda>i. \<not> zero_gap (w ! i) (w ! (i + 1))) ?is"
    by (rule filter_cong [OF refl]) (use z in auto)
  have "map (\<lambda>i. kh_point (v ! i) (v ! (i + 1)))
            (filter (\<lambda>i. \<not> zero_gap (w ! i) (w ! (i + 1))) ?is)
      = map (\<lambda>i. kh_point (w ! i) (w ! (i + 1)))
            (filter (\<lambda>i. \<not> zero_gap (w ! i) (w ! (i + 1))) ?is)"
    by (rule map_cong [OF refl]) (use p in auto)
  with f show ?thesis by (simp add: kh_as_pairs len [symmetric])
qed

theorem kh_ignores_quadrature_witness:
  "calculateKarousHjelt
     [\<lparr>station = Fin 0, inPhase = Fin 3, quadrature = Fin 1\<rparr>,
      \<lparr>station = Fin 10, inPhase = Fin 7, quadrature = Fin 2\<rparr>]
   = calculateKarousHjelt
     [\<lparr>station = Fin 0, inPhase = Fin 3, quadrature = Fin (- 8)\<rparr>,
      \<lparr>station = Fin 10, inPhase = Fin 7, quadrature = NaN\<rparr>]"
proof (rule kh_ignores_quadrature)
  show "length [\<lparr>station = Fin 0, inPhase = Fin 3, quadrature = Fin 1\<rparr>,
                \<lparr>station = Fin 10, inPhase = Fin 7, quadrature = Fin 2\<rparr>]
      = length [\<lparr>station = Fin 0, inPhase = Fin 3, quadrature = Fin (- 8)\<rparr>,
                \<lparr>station = Fin 10, inPhase = Fin 7, quadrature = NaN\<rparr>]"
    by simp
  show "\<forall>i < length [\<lparr>station = Fin 0, inPhase = Fin 3, quadrature = Fin 1\<rparr>,
                      \<lparr>station = Fin 10, inPhase = Fin 7, quadrature = Fin 2\<rparr>].
          station ([\<lparr>station = Fin 0, inPhase = Fin 3, quadrature = Fin 1\<rparr>,
                    \<lparr>station = Fin 10, inPhase = Fin 7, quadrature = Fin 2\<rparr>] ! i)
          = station ([\<lparr>station = Fin 0, inPhase = Fin 3, quadrature = Fin (- 8)\<rparr>,
                      \<lparr>station = Fin 10, inPhase = Fin 7, quadrature = NaN\<rparr>] ! i)
        \<and> inPhase ([\<lparr>station = Fin 0, inPhase = Fin 3, quadrature = Fin 1\<rparr>,
                    \<lparr>station = Fin 10, inPhase = Fin 7, quadrature = Fin 2\<rparr>] ! i)
          = inPhase ([\<lparr>station = Fin 0, inPhase = Fin 3, quadrature = Fin (- 8)\<rparr>,
                      \<lparr>station = Fin 10, inPhase = Fin 7, quadrature = NaN\<rparr>] ! i)"
    by (simp add: less_Suc_eq)
qed

section \<open>Properties of the geometric factor\<close>

text \<open>
  C1. The claim is that \<^verbatim>\<open>calculateGeometricFactor('wenner', [0,10,20,30])\<close> is
  \<open>2\<pi>\<cdot>10\<close>. The code returns \<^verbatim>\<open>null\<close> there: the first position is \<open>0\<close>, which the
  presence test \<^verbatim>\<open>!p1\<close> takes for a missing position.
\<close>

theorem wenner_example_is_null:
  "calculateGeometricFactor ''wenner'' [Fin 0, Fin 10, Fin 20, Fin 30] = None"
  by (simp add: calculateGeometricFactor_def)

text \<open>
  When none of the four positions is zero or NaN, the wenner branch does return
  \<open>2\<pi>\<cdot>|p2 - p1|\<close> for a positive \<open>|p2 - p1|\<close>; the same array moved by ten metres
  gets the factor \<open>2\<pi>\<cdot>10\<close>.
\<close>

lemma wenner_factor:
  assumes "\<not> falsy p1" "\<not> falsy p2" "\<not> falsy p3" "\<not> falsy p4"
    and "jgt (jabs (jsub p2 p1)) (Fin 0)"
  shows "calculateGeometricFactor ''wenner'' [p1, p2, p3, p4]
         = Some (jmul (jmul (Fin 2) Math_PI) (jabs (jsub p2 p1)))"
  using assms by (simp add: calculateGeometricFactor_def)

lemma wenner_shifted_example:
  "calculateGeometricFactor ''wenner'' [Fin 10, Fin 20, Fin 30, Fin 40]
   = Some (jmul (jmul (Fin 2) Math_PI) (Fin 10))"
  by (simp add: calculateGeometricFactor_def num_eval)

text \<open>
  C9. Whatever the array type, the geometric factor is \<^verbatim>\<open>null\<close> as soon as one of the
  four positions is \<open>0\<close>.
\<close>

theorem zero_position_gives_null:
  assumes "Fin 0 \<in> set (take 4 ps)"
  shows "calculateGeometricFactor arrType ps = None"
proof (cases ps)
  case Nil
  then show ?thesis by (simp add: calculateGeometricFactor_def)
next
  case (Cons p1 l1)
  show ?thesis
  proof (cases l1)
    case Nil
    with Cons show ?thesis by (simp add: calculateGeometricFactor_def)
  next
    case (Cons p2 l2)
    note c2 = this
    show ?thesis
    proof (cases l2)
      case Nil
      with \<open>ps = p1 # l1\<close> c2 show ?thesis by (simp add: calculateGeometricFactor_def)
    next
      case (Cons p3 l3)
      note c3 = this
      show ?thesis
      proof (cases l3)
        case Nil
        with \<open>ps = p1 # l1\<close> c2 c3 show ?thesis
          by (simp add: calculateGeometricFactor_def)
      next
        case (Cons p4 l4)
        with \<open>ps = p1 # l1\<close> c2 c3 have eq: "ps = p1 # p2 # p3 # p4 # l4"
          by simp
        with assms have "p1 = Fin 0 \<or> p2 = Fin 0 \<or> p3 = Fin 0 \<or> p4 = Fin 0"
          by (auto simp: numeral_eq_Suc)
        then have "falsy p1 \<or> falsy p2 \<or> falsy p3 \<or> falsy p4" by auto
        with eq show ?thesis by (simp add: calculateGeometricFactor_def)
      qed
    qed
  qed
qed

theorem zero_position_gives_null_witness:
  "Fin 0 \<in> set (take 4 [Fin 5, Fin 0, Fin 10, Fin 15])
   \<and> calculateGeometricFactor ''schlumberger'' [Fin 5, Fin 0, Fin 10, Fin 15] = None"
  using zero_position_gives_null [of "[Fin 5, Fin 0, Fin 10, Fin 15]" "''schlumberger''"]
  by simp

section \<open>Properties of the resistivity parser\<close>

lemmas resistivity_eval = resistivity_row_def resistivity_header_def resistivity_lines_def
  resolve_kFactor_def resolve_rho_def calculateGeometricFactor_def parseResistivityData_def
  Let_def

lemma resistivity_loop_eq:
  "resistivity_loop t lines acc = acc @ List.map_filter (resistivity_row t) lines"
  by (induction lines arbitrary: acc) (auto simp: map_filter_simps split: option.splits)

lemma spacing_positive:
  assumes "\<not> isNaN a" "\<not> isNaN b"
    and "\<not> jle (jabs (jsub b a)) (Fin 0)"
    and "isFinite (jdiv (jadd a d) (Fin 2))"
  shows "jgt (jabs (jsub b a)) (Fin 0)"
  using assms
  by (cases a; cases b; cases d) (auto simp: num_eval split: if_splits)

lemma resolve_kFactor_finite:
  "resolve_kFactor t pos k0 = Some k \<Longrightarrow> isFinite k \<and> k \<noteq> Fin 0"
  by (auto simp: resolve_kFactor_def split: if_splits option.splits)

lemma resistivity_row_invariant:
  assumes "resistivity_row t line = Some r"
  shows "record_invariant r"
proof -
  define parts where "parts = filter_Boolean (split_seps line)"
  define pos where "pos = map parseFloat (take 4 parts)"
  define sp where "sp = jabs (jsub (pos ! 1) (pos ! 0))"
  define mid where "mid = jdiv (jadd (pos ! 0) (pos ! 3)) (Fin 2)"
  from assms obtain k rho calc where
    len: "\<not> length parts < 6" and nonan: "\<not> list_ex isNaN pos" and sp0: "\<not> jle sp (Fin 0)"
    and k: "resolve_kFactor t pos (parseFloat (parts ! 4)) = Some k"
    and fin: "isFinite mid" "isFinite rho"
    and r: "r = \<lparr>arrayType = t, positions = pos, spacing = sp, midpoint = mid,
                 depth = jmul sp (Fin (519 / 1000)), kFactor = k,
                 resistance = parseFloat (parts ! 5),
                 apparentResistivity = rho, isCalculated = calc\<rparr>"
    unfolding resistivity_row_def parts_def pos_def sp_def mid_def Let_def
    by (auto split: if_splits option.splits prod.splits)
  from len have l4: "length pos = 4" by (simp add: pos_def)
  with nonan have "\<not> isNaN (pos ! 0)" "\<not> isNaN (pos ! 1)"
    by (auto simp: list_ex_iff)
  then have "jgt sp (Fin 0)"
    using sp0 fin(1) unfolding sp_def mid_def by (rule spacing_positive)
  with r fin k show ?thesis
    by (simp add: record_invariant_def sp_def mid_def resolve_kFactor_finite)
qed

text \<open>
  C6. Every record that the resistivity parser emits, for every text and every selected
  array type, satisfies the invariants of the data model: the spacing is \<open>|p2 - p1|\<close>
  and positive, the midpoint is \<open>(p1 + p4) / 2\<close>, the depth is the spacing times
  \<open>0.519\<close>, the apparent resistivity is finite and the geometric factor is finite and
  not zero.
\<close>

theorem parsed_records_invariant:
  assumes "parseResistivityData doc text = Inr recs" and "r \<in> set recs"
  shows "record_invariant r"
proof -
  from assms(1) obtain t where
    "recs = List.map_filter (resistivity_row t) (resistivity_lines text)"
    by (auto simp: parseResistivityData_def resistivity_loop_eq split: option.splits)
  with assms(2) obtain line where "resistivity_row t line = Some r"
    by (auto simp: map_filter_def)
  then show ?thesis by (rule resistivity_row_invariant)
qed

theorem parsed_records_invariant_witness:
  "parseResistivityData [''arrayType'' \<mapsto> ''wenner''] ''10 20 30 40 0 2''
     = Inr [\<lparr>arrayType = ''wenner'', positions = [Fin 10, Fin 20, Fin 30, Fin 40],
             spacing = Fin 10, midpoint = Fin 25, depth = Fin (519 / 100),
             kFactor = Fin (4421398595017775 / 70368744177664), resistance = Fin 2,
             apparentResistivity = Fin (4421398595017775 / 35184372088832),
             isCalculated = True\<rparr>]
   \<and> record_invariant
        \<lparr>arrayType = ''wenner'', positions = [Fin 10, Fin 20, Fin 30, Fin 40],
             spacing = Fin 10, midpoint = Fin 25, depth = Fin (519 / 100),
             kFactor = Fin (4421398595017775 / 70368744177664), resistance = Fin 2,
             apparentResistivity = Fin (4421398595017775 / 35184372088832),
             isCalculated = True\<rparr>"
proof -
  have e: "parseResistivityData [''arrayType'' \<mapsto> ''wenner''] ''10 20 30 40 0 2''
     = Inr [\<lparr>arrayType = ''wenner'', positions = [Fin 10, Fin 20, Fin 30, Fin 40],
             spacing = Fin 10, midpoint = Fin 25, depth = Fin (519 / 100),
             kFactor = Fin (4421398595017775 / 70368744177664), resistance = Fin 2,
             apparentResistivity = Fin (4421398595017775 / 35184372088832),
             isCalculated = True\<rparr>]"
    by (simp add: resistivity_eval text_eval num_eval)
  show ?thesis
    using e parsed_records_invariant [OF e] by simp
qed

text \<open>
  C4, as amended. For every row with a resolved geometric factor \<open>K\<close>: when field 6
  holds a finite apparent resistivity and the midpoint is finite, the record carries that
  value and is not marked calculated; when field 6 is absent or not finite, the resistance
  \<open>R\<close> is finite and both \<open>K * R\<close> and the midpoint are finite, the record carries
  \<open>K * R\<close> and is marked calculated; in every other case the row is skipped. The
  row function is total: no exception is raised.
\<close>

theorem resolver_outcome:
  assumes "row_kFactor arrType line = Some K"
  shows "resistivity_row arrType line =
           (if isFinite (row_supplied_rho line) then
              (if isFinite (row_midpoint line)
               then Some (row_record arrType line K (row_supplied_rho line) False)
               else None)
            else if isFinite (row_resistance line)
                    \<and> isFinite (jmul K (row_resistance line))
                    \<and> isFinite (row_midpoint line)
            then Some (row_record arrType line K (jmul K (row_resistance line)) True)
            else None)"
proof -
  from assms have pre: "\<not> resistivity_header line" "\<not> length (row_parts line) < 6"
    "\<not> list_ex isNaN (row_positions line)" "\<not> jle (row_spacing line) (Fin 0)"
    and k: "resolve_kFactor arrType (row_positions line) (parseFloat (row_parts line ! 4)) = Some K"
    by (auto simp: row_kFactor_def split: if_splits)
  from k have "isFinite K" by (simp add: resolve_kFactor_finite)
  with pre k show ?thesis
    unfolding resistivity_row_def resolve_rho_def row_parts_def row_positions_def
        row_spacing_def row_midpoint_def row_resistance_def row_supplied_rho_def
        row_kFactor_def row_record_def Let_def
    by (simp split: option.splits)
qed

theorem resolver_outcome_witness:
  "row_kFactor ''wenner'' ''10 20 30 40 62.83 9.5'' = Some (Fin (6283 / 100))
   \<and> resistivity_row ''wenner'' ''10 20 30 40 62.83 9.5''
     = Some \<lparr>arrayType = ''wenner'', positions = [Fin 10, Fin 20, Fin 30, Fin 40],
             spacing = Fin 10, midpoint = Fin 25, depth = Fin (519 / 100),
             kFactor = Fin (6283 / 100), resistance = Fin (95 / 10),
             apparentResistivity = Fin (596885 / 1000), isCalculated = True\<rparr>"
proof -
  have k: "row_kFactor ''wenner'' ''10 20 30 40 62.83 9.5'' = Some (Fin (6283 / 100))"
    by (simp add: row_parts_def row_positions_def row_spacing_def row_midpoint_def
        row_resistance_def row_supplied_rho_def row_kFactor_def row_record_def resistivity_eval
        text_eval num_eval)
  show ?thesis
    using k resolver_outcome [OF k]
    by (simp add: row_parts_def row_positions_def row_spacing_def row_midpoint_def
        row_resistance_def row_supplied_rho_def row_kFactor_def row_record_def text_eval
        num_eval)
qed

text \<open>
  The claim C4 as stated fails on two rows. In the first the last electrode position is
  infinite: the geometric factor is resolved and field 6 holds the finite value \<open>7\<close>,
  yet the midpoint is not finite and the row is skipped. In the second field 6 is absent
  and \<open>K\<close> and \<open>R\<close> are finite, yet \<open>K * R\<close> overflows and the row is skipped.
\<close>

lemma overflow_row_parts:
  "row_parts ''10 20 30 40 1e200 1e200'' = [''10'', ''20'', ''30'', ''40'', ''1e200'', ''1e200'']"
  by (simp add: row_parts_def text_eval)

lemma overflow_row_numbers:
  "parseFloat ''10'' = Fin 10" "parseFloat ''20'' = Fin 20" "parseFloat ''30'' = Fin 30"
  "parseFloat ''40'' = Fin 40" "parseFloat ''1e200'' = Fin (10 ^ 200)"
  "jmul (Fin (10 ^ 200)) (Fin (10 ^ 200)) = PInf"
  "\<not> resistivity_header ''10 20 30 40 1e200 1e200''"
  by (simp_all add: resistivity_header_def text_eval num_eval)

theorem supplied_rho_row_skipped:
  "row_kFactor ''wenner'' ''10 20 30 Infinity 5 2 7'' = Some (Fin 5)
   \<and> row_supplied_rho ''10 20 30 Infinity 5 2 7'' = Fin 7
   \<and> resistivity_row ''wenner'' ''10 20 30 Infinity 5 2 7'' = None
   \<and> row_kFactor ''wenner'' ''10 20 30 40 1e200 1e200'' = Some (Fin (10 ^ 200))
   \<and> row_resistance ''10 20 30 40 1e200 1e200'' = Fin (10 ^ 200)
   \<and> row_supplied_rho ''10 20 30 40 1e200 1e200'' = NaN
   \<and> resistivity_row ''wenner'' ''10 20 30 40 1e200 1e200'' = None"
proof -
  have "row_kFactor ''wenner'' ''10 20 30 Infinity 5 2 7'' = Some (Fin 5)
   \<and> row_supplied_rho ''10 20 30 Infinity 5 2 7'' = Fin 7
   \<and> resistivity_row ''wenner'' ''10 20 30 Infinity 5 2 7'' = None"
    by (simp add: row_parts_def row_positions_def row_spacing_def row_midpoint_def
        row_resistance_def row_supplied_rho_def row_kFactor_def row_record_def resistivity_eval
        text_eval num_eval)
  moreover have "row_kFactor ''wenner'' ''10 20 30 40 1e200 1e200'' = Some (Fin (10 ^ 200))
   \<and> row_resistance ''10 20 30 40 1e200 1e200'' = Fin (10 ^ 200)
   \<and> row_supplied_rho ''10 20 30 40 1e200 1e200'' = NaN
   \<and> resistivity_row ''wenner'' ''10 20 30 40 1e200 1e200'' = None"
    unfolding row_kFactor_def row_positions_def row_spacing_def row_resistance_def
      row_supplied_rho_def resistivity_row_def row_parts_def [symmetric] overflow_row_parts
    by (simp add: overflow_row_numbers parseFloat_at_def resolve_kFactor_def resolve_rho_def
        num_eval Let_def)
  ultimately show ?thesis by (simp only: simp_thms)
qed

text \<open>
  C2, as amended. The output of the resistivity parser is a function of the text and of
  the value of the page element \<^verbatim>\<open>arrayType\<close>, which the parser reads itself: two
  pages that agree on that value give the same result on the same text.
\<close>

theorem array_type_from_page:
  assumes "doc1 ''arrayType'' = doc2 ''arrayType''"
  shows "parseResistivityData doc1 text = parseResistivityData doc2 text"
  using assms by (simp add: parseResistivityData_def)

theorem array_type_from_page_witness:
  "[''arrayType'' \<mapsto> ''wenner'', ''dataInput'' \<mapsto> ''abc''] ''arrayType''
     = [''arrayType'' \<mapsto> ''wenner''] ''arrayType''
   \<and> parseResistivityData [''arrayType'' \<mapsto> ''wenner'', ''dataInput'' \<mapsto> ''abc'']
         ''10 20 30 40 0 2''
     = parseResistivityData [''arrayType'' \<mapsto> ''wenner''] ''10 20 30 40 0 2''"
  using array_type_from_page
    [of "[''arrayType'' \<mapsto> ''wenner'', ''dataInput'' \<mapsto> ''abc'']"
        "[''arrayType'' \<mapsto> ''wenner'']" "''10 20 30 40 0 2''"]
  by simp

text \<open>
  The claim C2 as stated fails: the same text parsed with two pages that differ only in
  the selected array type gives two different record sequences.
\<close>

theorem selected_array_type_changes_output:
  "parseResistivityData [''arrayType'' \<mapsto> ''wenner''] ''10 20 30 40 0 2''
   \<noteq> parseResistivityData [''arrayType'' \<mapsto> ''schlumberger''] ''10 20 30 40 0 2''"
  by (simp add: resistivity_eval text_eval num_eval)

section \<open>Properties of the VLF parser\<close>

lemma vlf_loop_eq: "vlf_loop lines acc = acc @ List.map_filter vlf_row lines"
  by (induction lines arbitrary: acc) (auto simp: map_filter_simps split: option.splits)

lemma vlf_row_eq: "vlf_row line = (if vlf_accepts line then Some (vlf_record_of line) else None)"
  by (auto simp: vlf_row_def vlf_accepts_def vlf_record_of_def Let_def)

lemma map_filter_if:
  "List.map_filter (\<lambda>l. if P l then Some (f l) else None) ls = map f (filter P ls)"
  by (induction ls) (auto simp: map_filter_simps)

lemma parseVLF_map_filter:
  "parseVLFData text = map vlf_record_of (filter vlf_accepts (vlf_lines text))"
  by (simp add: parseVLFData_def vlf_loop_eq vlf_row_eq [abs_def] map_filter_if)

lemma split_seps_not_Nil [simp]: "split_seps s \<noteq> []"
  by (induction s rule: split_seps.induct) (auto split: list.splits)

lemma split_seps_token:
  "list_all (\<lambda>c. \<not> isSep c) a \<Longrightarrow> split_seps a = [a]"
  by (induction a) (auto split: list.splits)

lemma split_seps_token_sep:
  assumes "list_all (\<lambda>c. \<not> isSep c) a" "isSep s"
  shows "split_seps (a @ s # rest) = a # split_seps (dropWhile isSep rest)"
  using assms by (induction a) (auto split: list.splits)

lemma dropWhile_sep_token:
  assumes "list_all isSep s" "b \<noteq> []" "\<not> isSep (hd b)"
  shows "dropWhile isSep (s @ b @ rest) = b @ rest"
proof -
  from assms(2) obtain x xs where b: "b = x # xs" by (cases b) auto
  with assms(3) have "\<not> isSep x" by simp
  with assms(1) b show ?thesis
    by (simp add: dropWhile_append3 list_all_iff dropWhile_append)
qed

lemma split_seps_three:
  assumes a: "list_all (\<lambda>c. \<not> isSep c) a"
    and b: "list_all (\<lambda>c. \<not> isSep c) b" "b \<noteq> []"
    and c: "list_all (\<lambda>c. \<not> isSep c) c" "c \<noteq> []"
    and s1: "separator s1" and s2: "separator s2"
  shows "split_seps (a @ s1 @ b @ s2 @ c) = [a, b, c]"
proof -
  from s1 obtain x xs where s1': "s1 = x # xs" "isSep x" "list_all isSep xs"
    by (cases s1) (auto simp: separator_def)
  from s2 obtain y ys where s2': "s2 = y # ys" "isSep y" "list_all isSep ys"
    by (cases s2) (auto simp: separator_def)
  from b have hb: "\<not> isSep (hd b)" by (cases b) auto
  from c have hc: "\<not> isSep (hd c)" by (cases c) auto
  have "split_seps (a @ s1 @ b @ s2 @ c) = a # split_seps (dropWhile isSep (xs @ b @ s2 @ c))"
    using split_seps_token_sep [OF a s1'(2)] s1'(1) by simp
  also have "dropWhile isSep (xs @ b @ s2 @ c) = b @ s2 @ c"
    by (rule dropWhile_sep_token [OF s1'(3) b(2) hb])
  also have "split_seps (b @ s2 @ c) = b # split_seps (dropWhile isSep (ys @ c))"
    using split_seps_token_sep [OF b(1) s2'(2)] s2'(1) by simp
  also have "dropWhile isSep (ys @ c) = c"
    using dropWhile_sep_token [OF s2'(3) c(2) hc, of "[]"] by simp
  also have "split_seps c = [c]" by (rule split_seps_token [OF c(1)])
  finally show ?thesis .
qed

lemma numeric_char_set: "numeric_char c = (c \<in> set ''0123456789+-.eE'')"
  by (auto simp: numeric_char_def isDigit_def)

lemma numeric_char_props:
  assumes "numeric_char c"
  shows "\<not> isSep c" "\<not> isWhiteSpace c" "c \<noteq> CHR 0x0A" "c \<noteq> CHR 0x0D"
    "toLowerASCII c \<noteq> CHR ''s''" "toLowerASCII c \<noteq> CHR ''i''"
proof -
  from assms have "c \<in> set ''0123456789+-.eE''" by (simp only: numeric_char_set)
  then have c: "c = CHR ''0'' \<or> c = CHR ''1'' \<or> c = CHR ''2'' \<or> c = CHR ''3'' \<or> c = CHR ''4''
      \<or> c = CHR ''5'' \<or> c = CHR ''6'' \<or> c = CHR ''7'' \<or> c = CHR ''8'' \<or> c = CHR ''9''
      \<or> c = CHR ''+'' \<or> c = CHR ''-'' \<or> c = CHR ''.'' \<or> c = CHR ''e'' \<or> c = CHR ''E''"
    by simp
  from c show "\<not> isSep c" by (elim disjE) (simp_all add: isSep_def)
  from c show "\<not> isWhiteSpace c" by (elim disjE) (simp_all add: isWhiteSpace_def)
  from c show "c \<noteq> CHR 0x0A" by (elim disjE) simp_all
  from c show "c \<noteq> CHR 0x0D" by (elim disjE) simp_all
  from c show "toLowerASCII c \<noteq> CHR ''s''" by (elim disjE) (simp_all add: toLowerASCII_def)
  from c show "toLowerASCII c \<noteq> CHR ''i''" by (elim disjE) (simp_all add: toLowerASCII_def)
qed

lemma isSep_props:
  assumes "isSep c"
  shows "c \<noteq> CHR 0x0A" "c \<noteq> CHR 0x0D"
    "toLowerASCII c \<noteq> CHR ''s''" "toLowerASCII c \<noteq> CHR ''i''"
proof -
  from assms have c: "c = CHR 0x09 \<or> c = CHR '','' \<or> c = CHR '' ''" by (simp add: isSep_def)
  from c show "c \<noteq> CHR 0x0A" by (elim disjE) simp_all
  from c show "c \<noteq> CHR 0x0D" by (elim disjE) simp_all
  from c show "toLowerASCII c \<noteq> CHR ''s''" by (elim disjE) (simp_all add: toLowerASCII_def)
  from c show "toLowerASCII c \<noteq> CHR ''i''" by (elim disjE) (simp_all add: toLowerASCII_def)
qed

lemma trim_clean:
  assumes "s \<noteq> []" "\<not> isWhiteSpace (hd s)" "\<not> isWhiteSpace (last s)"
  shows "trim s = s"
proof -
  from assms have 1: "dropWhile isWhiteSpace s = s" by (cases s) auto
  from assms have "rev s \<noteq> []" "\<not> isWhiteSpace (hd (rev s))" by (simp_all add: hd_rev)
  then have "dropWhile isWhiteSpace (rev s) = rev s" by (cases "rev s") auto
  with 1 show ?thesis by (simp add: trim_def)
qed

lemma numeric_token_props:
  assumes "numeric_token a"
  shows "a \<noteq> []" "list_all (\<lambda>c. \<not> isSep c) a" "trim a = a" "list_all numeric_char a"
proof -
  from assms show ne: "a \<noteq> []" and nc: "list_all numeric_char a"
    by (simp_all add: numeric_token_def)
  from nc show "list_all (\<lambda>c. \<not> isSep c) a"
    by (auto simp: list_all_iff numeric_char_props)
  from ne nc have "\<not> isWhiteSpace (hd a)" "\<not> isWhiteSpace (last a)"
    by (auto simp: list_all_iff numeric_char_props)
  with ne show "trim a = a" by (rule trim_clean)
qed

lemma vlf_parts_cells:
  assumes "well_formed_cells (a, s1, b, s2, c)"
  shows "vlf_parts (line_of_cells (a, s1, b, s2, c)) = [a, b, c]"
proof -
  from assms have t: "numeric_token a" "numeric_token b" "numeric_token c"
    and s: "separator s1" "separator s2" by simp_all
  have "split_seps (a @ s1 @ b @ s2 @ c) = [a, b, c]"
    by (rule split_seps_three)
       (use t s in \<open>simp_all add: numeric_token_props\<close>)
  with t show ?thesis
    by (simp add: vlf_parts_def filter_Boolean_def numeric_token_props)
qed

lemma contains_hd:
  "contains w s \<Longrightarrow> w \<noteq> [] \<Longrightarrow> hd w \<in> set s"
proof (induction s)
  case Nil
  then show ?case by simp
next
  case (Cons c cs)
  then show ?case by (cases w) auto
qed

lemma cells_chars:
  assumes "well_formed_cells (a, s1, b, s2, c)"
    and "ch \<in> set (line_of_cells (a, s1, b, s2, c))"
  shows "numeric_char ch \<or> isSep ch"
  using assms by (auto simp: numeric_token_def separator_def list_all_iff)

lemma cells_not_header:
  assumes "well_formed_cells cells"
  shows "\<not> vlf_header (line_of_cells cells)"
proof -
  obtain a s1 b s2 c where cells: "cells = (a, s1, b, s2, c)" by (cases cells) auto
  let ?l = "map toLowerASCII (line_of_cells cells)"
  have "CHR ''s'' \<notin> set ?l" "CHR ''i'' \<notin> set ?l"
    using cells_chars [OF assms [unfolded cells]] numeric_char_props(5,6) isSep_props(3,4)
    unfolding cells by (metis (no_types, lifting) imageE list.set_map)+
  then have "\<not> contains ''station'' ?l" "\<not> contains ''inphase'' ?l"
    using contains_hd [of "''station''" ?l] contains_hd [of "''inphase''" ?l] by auto
  then show ?thesis by (simp add: vlf_header_def test_i_def)
qed

lemma cells_accepted:
  assumes "well_formed_cells cells"
  shows "vlf_accepts (line_of_cells cells)"
    and "vlf_record_of (line_of_cells cells) = record_of_cells cells"
proof -
  obtain a s1 b s2 c where cells: "cells = (a, s1, b, s2, c)" by (cases cells) auto
  from assms have p: "vlf_parts (line_of_cells cells) = [a, b, c]"
    unfolding cells by (rule vlf_parts_cells)
  from assms cells have "isFinite (parseFloat a)" "isFinite (parseFloat b)"
    "isFinite (parseFloat c)" by (simp_all add: numeric_token_def)
  with p cells_not_header [OF assms] show "vlf_accepts (line_of_cells cells)"
    by (simp add: vlf_accepts_def)
  from p show "vlf_record_of (line_of_cells cells) = record_of_cells cells"
    by (simp add: vlf_record_of_def cells)
qed

lemma split_newlines_not_Nil [simp]: "split_newlines s \<noteq> []"
  by (induction s rule: split_newlines.induct) (auto split: list.splits)

lemma split_newlines_single:
  "list_all (\<lambda>c. c \<noteq> CHR 0x0A \<and> c \<noteq> CHR 0x0D) l \<Longrightarrow> split_newlines l = [l]"
  by (induction l) (auto split: list.splits)

lemma split_newlines_line:
  "list_all (\<lambda>c. c \<noteq> CHR 0x0A \<and> c \<noteq> CHR 0x0D) l
   \<Longrightarrow> split_newlines (l @ CHR 0x0A # rest) = l # split_newlines rest"
  by (induction l) (auto split: list.splits)

lemma split_join_lines:
  assumes "list_all clean_line ls" "ls \<noteq> []"
  shows "split_newlines (join_lines ls) = ls"
  using assms
proof (induction ls rule: join_lines.induct)
  case 1
  then show ?case by simp
next
  case (2 l)
  then show ?case by (simp add: clean_line_def split_newlines_single)
next
  case (3 l l' ls)
  then show ?case by (simp add: clean_line_def split_newlines_line)
qed

lemma vlf_lines_join:
  assumes "list_all clean_line ls"
  shows "vlf_lines (join_lines ls) = ls"
proof (cases ls)
  case Nil
  then show ?thesis by (simp add: vlf_lines_def filter_Boolean_def trim_def)
next
  case (Cons l ls')
  with assms have "split_newlines (join_lines ls) = ls" by (intro split_join_lines) auto
  moreover from assms have "map trim ls = ls" "filter (\<lambda>p. p \<noteq> []) ls = ls"
    by (auto simp: list_all_iff clean_line_def map_idI filter_id_conv)
  ultimately show ?thesis by (simp add: vlf_lines_def filter_Boolean_def)
qed

lemma cells_clean_line:
  assumes "well_formed_cells cells"
  shows "clean_line (line_of_cells cells)"
proof -
  obtain a s1 b s2 c where cells: "cells = (a, s1, b, s2, c)" by (cases cells) auto
  let ?l = "line_of_cells cells"
  from assms cells have ta: "numeric_token a" and tc: "numeric_token c" by simp_all
  have ne: "?l \<noteq> []" using ta by (simp add: cells numeric_token_def)
  have "hd ?l = hd a" "last ?l = last c"
    using ta tc by (simp_all add: cells numeric_token_def)
  moreover have "numeric_char (hd a)" "numeric_char (last c)"
    using ta tc by (auto simp: numeric_token_def list_all_iff)
  ultimately have "\<not> isWhiteSpace (hd ?l)" "\<not> isWhiteSpace (last ?l)"
    by (simp_all add: numeric_char_props)
  with ne have "trim ?l = ?l" by (rule trim_clean)
  moreover have "list_all (\<lambda>c. c \<noteq> CHR 0x0A \<and> c \<noteq> CHR 0x0D) ?l"
    using cells_chars [OF assms [unfolded cells]] numeric_char_props(3,4) isSep_props(1,2)
    unfolding cells list_all_iff by blast
  ultimately show ?thesis using ne by (simp add: clean_line_def)
qed

lemma parseVLF_cells:
  assumes "list_all well_formed_cells rows"
  shows "parseVLFData (join_lines (map line_of_cells rows)) = map record_of_cells rows"
proof -
  have "list_all clean_line (map line_of_cells rows)"
    using assms by (auto simp: list_all_iff cells_clean_line)
  then have "vlf_lines (join_lines (map line_of_cells rows)) = map line_of_cells rows"
    by (rule vlf_lines_join)
  moreover have "filter vlf_accepts (map line_of_cells rows) = map line_of_cells rows"
    using assms by (auto simp: list_all_iff filter_id_conv cells_accepted(1))
  moreover have "map vlf_record_of (map line_of_cells rows) = map record_of_cells rows"
    using assms by (auto simp: list_all_iff cells_accepted(2))
  ultimately show ?thesis by (simp add: parseVLF_map_filter)
qed

text \<open>
  C3. For every text the VLF parser yields, in input order, exactly one record for each
  accepted line, holding the parsed values of its first three fields; in particular a text
  of well-formed three-column numeric lines gives one record per line with the values of
  its tokens. A line that matches the header pattern gives no record, and neither does a
  line whose third field does not parse to a finite number.
\<close>

theorem parseVLF_records:
  "parseVLFData text = map vlf_record_of (filter vlf_accepts (vlf_lines text))
   \<and> (list_all well_formed_cells rows \<longrightarrow>
        parseVLFData (join_lines (map line_of_cells rows)) = map record_of_cells rows)
   \<and> (vlf_header header_line \<longrightarrow> vlf_row header_line = None)
   \<and> (\<not> isFinite (parseFloat_at (vlf_parts line) 2) \<longrightarrow> vlf_row line = None)"
proof (intro conjI impI)
  show "parseVLFData text = map vlf_record_of (filter vlf_accepts (vlf_lines text))"
    by (rule parseVLF_map_filter)
  show "parseVLFData (join_lines (map line_of_cells rows)) = map record_of_cells rows"
    if "list_all well_formed_cells rows"
    using that by (rule parseVLF_cells)
  show "vlf_row header_line = None" if "vlf_header header_line"
    using that by (simp add: vlf_row_def)
  show "vlf_row line = None" if "\<not> isFinite (parseFloat_at (vlf_parts line) 2)"
    using that by (auto simp: vlf_row_def parseFloat_at_def Let_def)
qed

theorem parseVLF_records_witness:
  "list_all well_formed_cells
     [(''0'', '','', ''45.2'', '','', ''-12.5''), (''10'', '' '', ''52.3'', '', '', ''-15.8'')]
   \<and> parseVLFData ''0,45.2,-12.5\<newline>10 52.3, -15.8''
     = [\<lparr>station = Fin 0, inPhase = Fin (452 / 10), quadrature = Fin (- (125 / 10))\<rparr>,
        \<lparr>station = Fin 10, inPhase = Fin (523 / 10), quadrature = Fin (- (158 / 10))\<rparr>]
   \<and> vlf_header ''Station InPhase Quadrature''
   \<and> vlf_row ''Station InPhase Quadrature'' = None
   \<and> \<not> isFinite (parseFloat_at (vlf_parts ''20 48.7 abc'') 2)
   \<and> vlf_row ''20 48.7 abc'' = None"
proof -
  have h1: "list_all well_formed_cells
     [(''0'', '','', ''45.2'', '','', ''-12.5''), (''10'', '' '', ''52.3'', '', '', ''-15.8'')]"
    by (simp add: vlf_row_def vlf_header_def vlf_parts_def vlf_lines_def parseVLFData_def
        numeric_token_def numeric_char_def separator_def Let_def text_eval num_eval)
  have h2: "vlf_header ''Station InPhase Quadrature''"
    by (simp add: vlf_row_def vlf_header_def vlf_parts_def vlf_lines_def parseVLFData_def
        numeric_token_def numeric_char_def separator_def Let_def text_eval)
  have h3: "\<not> isFinite (parseFloat_at (vlf_parts ''20 48.7 abc'') 2)"
    by (simp add: vlf_row_def vlf_header_def vlf_parts_def vlf_lines_def parseVLFData_def
        numeric_token_def numeric_char_def separator_def Let_def text_eval num_eval)
  have j: "join_lines (map line_of_cells
      [(''0'', '','', ''45.2'', '','', ''-12.5''), (''10'', '' '', ''52.3'', '', '', ''-15.8'')])
    = ''0,45.2,-12.5\<newline>10 52.3, -15.8''"
    by simp
  note inst = parseVLF_records
        [of "''0,45.2,-12.5\<newline>10 52.3, -15.8''"
            "[(''0'', '','', ''45.2'', '','', ''-12.5''),
              (''10'', '' '', ''52.3'', '', '', ''-15.8'')]"
            "''Station InPhase Quadrature''" "''20 48.7 abc''"]
  from inst h1 have c2: "parseVLFData ''0,45.2,-12.5\<newline>10 52.3, -15.8''
      = map record_of_cells [(''0'', '','', ''45.2'', '','', ''-12.5''),
                             (''10'', '' '', ''52.3'', '', '', ''-15.8'')]"
    unfolding j by blast
  from inst h2 have c3: "vlf_row ''Station InPhase Quadrature'' = None" by blast
  from inst h3 have c4: "vlf_row ''20 48.7 abc'' = None" by blast
  have "map record_of_cells [(''0'', '','', ''45.2'', '','', ''-12.5''),
                             (''10'', '' '', ''52.3'', '', '', ''-15.8'')]
      = [\<lparr>station = Fin 0, inPhase = Fin (452 / 10), quadrature = Fin (- (125 / 10))\<rparr>,
         \<lparr>station = Fin 10, inPhase = Fin (523 / 10), quadrature = Fin (- (158 / 10))\<rparr>]"
    by (simp add: text_eval num_eval)
  with c2 c3 c4 h1 h2 h3 show ?thesis by (simp only: simp_thms)
qed

section \<open>Properties of the grouping\<close>

subsection \<open>The comparator sort\<close>

lemma js_insert_insort:
  assumes "\<forall>b \<in> set bs. jgt (cmp a b) (Fin 0) \<longleftrightarrow> f b < f a"
  shows "js_insert cmp a bs = insort_key f a bs"
  using assms by (induction bs) (auto simp: not_less)

lemma js_sort_sort_key:
  fixes f :: "'a \<Rightarrow> 'b::linorder"
  assumes "\<forall>a \<in> set xs. \<forall>b \<in> set xs. jgt (cmp a b) (Fin 0) \<longleftrightarrow> f b < f a"
  shows "js_sort cmp xs = sort_key f xs"
  using assms
proof (induction xs)
  case Nil
  then show ?case by (simp add: js_sort_def)
next
  case (Cons a xs)
  then have ih: "js_sort cmp xs = sort_key f xs" by simp
  have "js_insert cmp a (sort_key f xs) = insort_key f a (sort_key f xs)"
    by (rule js_insert_insort) (use Cons.prems in simp)
  with ih show ?case by (simp add: js_sort_def)
qed

lemma jsub_sign:
  assumes "\<not> isNaN a" "\<not> isNaN b"
  shows "jgt (jsub a b) (Fin 0) \<longleftrightarrow> rank b < rank a"
  using assms by (cases a; cases b) (auto simp: num_eval)

lemma jlt_rank:
  assumes "\<not> isNaN a" "\<not> isNaN b"
  shows "jlt a b \<longleftrightarrow> rank a < rank b"
  using assms by (cases a; cases b) auto

lemma jle_rank:
  assumes "\<not> isNaN a" "\<not> isNaN b"
  shows "jle a b \<longleftrightarrow> rank a \<le> rank b"
  using assms by (cases a; cases b) (auto simp: jle_def)

lemma rank_inj: "rank a = rank b \<Longrightarrow> a = b"
  by (cases a; cases b) auto

subsection \<open>The grouped object\<close>

lemma group_push_keys:
  "map fst (group_push g k d) = (if k \<in> set (map fst g) then map fst g else map fst g @ [k])"
  by (induction g k d rule: group_push.induct) auto

lemma group_push_map_of:
  "map_of (group_push g k d) k' = (if k' = k then Some (members g k @ [d]) else map_of g k')"
  by (induction g k d rule: group_push.induct) (auto simp: members_def)

lemma group_push_distinct:
  "distinct (map fst g) \<Longrightarrow> distinct (map fst (group_push g k d))"
  by (simp add: group_push_keys)

lemma fold_groups:
  fixes key :: "resistivity \<Rightarrow> fixed_key"
  defines "step \<equiv> \<lambda>g d. group_push g (key d) d"
  shows "set (map fst (foldl step g data)) = set (map fst g) \<union> key ` set data"
    and "distinct (map fst g) \<Longrightarrow> distinct (map fst (foldl step g data))"
    and "members (foldl step g data) k = members g k @ filter (\<lambda>r. key r = k) data"
proof (induction data arbitrary: g)
  case Nil
  { case 1 show ?case by simp }
  { case 2 then show ?case by simp }
  { case 3 show ?case by simp }
next
  case (Cons d data)
  { case 1 show ?case
      unfolding foldl_Cons Cons.IH(1) by (auto simp: step_def group_push_keys) }
  { case 2 then show ?case
      unfolding foldl_Cons by (intro Cons.IH(2)) (simp add: step_def group_push_distinct) }
  { case 3 show ?case
      unfolding foldl_Cons Cons.IH(3)
      by (simp add: step_def members_def group_push_map_of) }
qed

lemma groupedData_props:
  shows groupedData_keys:
      "set (map fst (groupedData data)) = (\<lambda>r. toFixed2 (spacing r)) ` set data"
    and groupedData_distinct: "distinct (map fst (groupedData data))"
    and groupedData_members:
      "members (groupedData data) k = filter (\<lambda>r. toFixed2 (spacing r) = k) data"
  using fold_groups [where g = "[]" and key = "\<lambda>r. toFixed2 (spacing r)" and data = data]
  by (simp_all add: groupedData_def members_def)

lemma groupedData_lookup:
  assumes "k \<in> (\<lambda>r. toFixed2 (spacing r)) ` set data"
  shows "map_of (groupedData data) k = Some (filter (\<lambda>r. toFixed2 (spacing r) = k) data)"
proof -
  from assms have "k \<in> set (map fst (groupedData data))" by (simp only: groupedData_keys)
  then obtain ds where "map_of (groupedData data) k = Some ds"
    by (metis list.set_map map_of_eq_None_iff not_Some_eq)
  with groupedData_members [of data k] show ?thesis by (simp add: members_def)
qed

subsection \<open>Keys\<close>

lemma floor_nat_half: "\<lfloor>real n + 1 / 2\<rfloor> = int n"
  by (rule floor_unique) simp_all

lemma key_stable:
  assumes "jgt v (Fin 0)" "off_toFixed_boundary v"
  shows "toFixed2 (Number_of_key (toFixed2 v)) = toFixed2 v"
    and "\<not> isNaN (Number_of_key (toFixed2 v))"
proof -
  have "toFixed2 (Number_of_key (toFixed2 v)) = toFixed2 v \<and> \<not> isNaN (Number_of_key (toFixed2 v))"
  proof (cases v)
    case (Fin r)
    with assms have pos: "0 < r" by (simp add: jgt_def)
    show ?thesis
    proof (cases "r < 10 ^ 21")
      case True
      with assms(2) Fin pos have small: "r < 10 ^ 21 - 1 / 200"
        by (simp add: off_toFixed_boundary_def)
      define n where "n = nat \<lfloor>r * 100 + 1 / 2\<rfloor>"
      have k: "toFixed2 v = Fixed False n"
        using Fin pos True by (simp add: toFixed2_def n_def)
      have "0 \<le> \<lfloor>r * 100 + 1 / 2\<rfloor>" using pos by simp
      then have "real n = of_int \<lfloor>r * 100 + 1 / 2\<rfloor>" by (simp add: n_def)
      also have "\<dots> \<le> r * 100 + 1 / 2" by (rule of_int_floor_le)
      also have "\<dots> < 10 ^ 23" using small by simp
      finally have "real n / 100 < 10 ^ 21" by simp
      then have "toFixed2 (Fin (real n / 100)) = Fixed False n"
        by (simp add: toFixed2_def floor_nat_half)
      with k show ?thesis by (simp add: Number_of_key_def)
    next
      case False
      with Fin pos show ?thesis by (simp add: toFixed2_def Number_of_key_def)
    qed
  qed (use assms in \<open>simp_all add: toFixed2_def Number_of_key_def jgt_def\<close>)
  then show "toFixed2 (Number_of_key (toFixed2 v)) = toFixed2 v"
    and "\<not> isNaN (Number_of_key (toFixed2 v))" by simp_all
qed

subsection \<open>The loop over the sorted spacings\<close>

lemma series_loop_map:
  assumes "\<forall>s \<in> set ss. map_of g (toFixed2 s) \<noteq> None"
  shows "series_loop g ss acc = Inr (acc @ map (series_of g) ss)"
  using assms
proof (induction ss arbitrary: acc)
  case Nil
  then show ?case by simp
next
  case (Cons s ss)
  then obtain ds where ds: "map_of g (toFixed2 s) = Some ds" by auto
  then have "series_loop g (s # ss) acc = series_loop g ss (acc @ [series_of g s])"
    by (simp add: series_of_def members_def Let_def)
  with Cons show ?case by simp
qed

lemma sorted_points:
  assumes fin: "\<forall>r \<in> set ds. isFinite (midpoint r)"
  defines "points \<equiv> js_sort (\<lambda>a b. jsub (midpoint a) (midpoint b)) ds"
  shows "mset (map point_of (filter P points)) = mset (map point_of (filter P ds))"
    and "sorted_wrt (\<lambda>p q. jle (x p) (x q)) (map point_of (filter P points))"
proof -
  have nn: "\<not> isNaN (midpoint r)" if "r \<in> set ds" for r
    using fin that by (cases "midpoint r") auto
  have eq: "points = sort_key (\<lambda>r. rank (midpoint r)) ds"
    unfolding points_def by (rule js_sort_sort_key) (simp add: jsub_sign nn)
  show "mset (map point_of (filter P points)) = mset (map point_of (filter P ds))"
    by (simp add: eq)
  have "sorted (map (\<lambda>r. rank (midpoint r)) points)"
    unfolding eq by (rule sorted_sort_key)
  then have "sorted (map (\<lambda>r. rank (midpoint r)) (filter P points))"
    by (rule sorted_filter)
  then have "sorted_wrt (\<lambda>a b. rank (midpoint a) \<le> rank (midpoint b)) (filter P points)"
    by (simp add: sorted_map)
  then have "sorted_wrt (\<lambda>a b. jle (midpoint a) (midpoint b)) (filter P points)"
  proof (rule sorted_wrt_mono_rel [rotated])
    fix a b assume "a \<in> set (filter P points)" "b \<in> set (filter P points)"
      and le: "rank (midpoint a) \<le> rank (midpoint b)"
    then have "a \<in> set ds" "b \<in> set ds" by (simp_all add: eq)
    with le show "jle (midpoint a) (midpoint b)" by (simp add: jle_rank nn)
  qed
  then show "sorted_wrt (\<lambda>p q. jle (x p) (x q)) (map point_of (filter P points))"
    by (simp add: sorted_wrt_map point_of_def)
qed

text \<open>The records that the parser emits have a positive spacing and a finite midpoint.\<close>

lemma parsed_records_plottable:
  assumes "parseResistivityData doc text = Inr recs" and "r \<in> set recs"
  shows "jgt (spacing r) (Fin 0) \<and> isFinite (midpoint r)"
proof -
  from assms(1) obtain t where
    "recs = List.map_filter (resistivity_row t) (resistivity_lines text)"
    by (auto simp: parseResistivityData_def resistivity_loop_eq split: option.splits)
  with assms(2) obtain line where row: "resistivity_row t line = Some r"
    by (auto simp: map_filter_def)
  then have "record_invariant r" by (rule resistivity_row_invariant)
  moreover from row have "isFinite (midpoint r)"
    unfolding resistivity_row_def Let_def
    by (auto split: if_splits option.splits prod.splits)
  ultimately show ?thesis unfolding record_invariant_def by blast
qed

lemma sorted_spacings:
  assumes "list_all plottable data"
  defines "g \<equiv> groupedData data"
  defines "ss \<equiv> js_sort (\<lambda>a b. jsub a b) (map (\<lambda>e. Number_of_key (fst e)) g)"
  shows "sorted_wrt jlt ss"
    and "toFixed2 ` set ss = (\<lambda>r. toFixed2 (spacing r)) ` set data"
proof -
  define ks where "ks = map fst g"
  let ?keys = "ks"
  let ?nums = "map Number_of_key ks"
  have keys: "set ?keys = (\<lambda>r. toFixed2 (spacing r)) ` set data"
    unfolding g_def ks_def by (rule groupedData_keys)
  have stable: "toFixed2 (Number_of_key k) = k" and nn: "\<not> isNaN (Number_of_key k)"
    if "k \<in> set ?keys" for k
  proof -
    from that keys obtain r where r: "r \<in> set data" "k = toFixed2 (spacing r)" by auto
    with assms(1) have "jgt (spacing r) (Fin 0)" "off_toFixed_boundary (spacing r)"
      by (auto simp: list_all_iff plottable_def)
    then show "toFixed2 (Number_of_key k) = k" "\<not> isNaN (Number_of_key k)"
      unfolding r(2) by (rule key_stable)+
  qed
  have nums: "map (\<lambda>e. Number_of_key (fst e)) g = ?nums" by (simp add: ks_def)
  have eq: "ss = sort_key rank ?nums"
    unfolding ss_def nums by (rule js_sort_sort_key) (auto simp: jsub_sign nn)
  have "inj_on Number_of_key (set ?keys)"
    by (rule inj_onI) (metis stable)
  moreover have "distinct ?keys" unfolding g_def ks_def by (rule groupedData_distinct)
  ultimately have "distinct ?nums" by (simp add: distinct_map)
  then have "distinct ss" by (simp add: eq)
  then have "distinct (map rank ss)"
    by (simp add: distinct_map inj_on_def rank_inj)
  moreover have "sorted (map rank ss)" unfolding eq by (rule sorted_sort_key)
  ultimately have "sorted_wrt (<) (map rank ss)" by (simp add: strict_sorted_iff)
  then have "sorted_wrt (\<lambda>a b. rank a < rank b) ss" by (simp add: sorted_wrt_map)
  then show "sorted_wrt jlt ss"
  proof (rule sorted_wrt_mono_rel [rotated])
    fix a b assume "a \<in> set ss" "b \<in> set ss" and lt: "rank a < rank b"
    then have "\<not> isNaN a" "\<not> isNaN b" using nn by (auto simp: eq)
    with lt show "jlt a b" by (simp add: jlt_rank)
  qed
  have "toFixed2 ` set ss = (\<lambda>k. toFixed2 (Number_of_key k)) ` set ?keys"
    by (auto simp: eq)
  also have "\<dots> = set ?keys" using stable by (auto simp: image_iff)
  finally show "toFixed2 ` set ss = (\<lambda>r. toFixed2 (spacing r)) ` set data"
    using keys by simp
qed

text \<open>
  C7. The grouping buckets the records by their spacing rounded to two decimals, emits the
  groups in strictly ascending order of numeric spacing, one group for each rounded
  spacing that occurs, and gives every group the points of its records sorted ascending
  by midpoint, in the measured and in the calculated list.
\<close>

theorem groupBySpacing_ordered:
  assumes "list_all plottable data"
  shows "\<exists>groups. groupBySpacing data = Inr groups
           \<and> sorted_wrt jlt (map series_spacing groups)
           \<and> (\<lambda>s. toFixed2 (series_spacing s)) ` set groups
               = (\<lambda>r. toFixed2 (spacing r)) ` set data
           \<and> (\<forall>s \<in> set groups.
                 mset (measuredPoints s)
                   = mset (map point_of (filter (\<lambda>r. \<not> isCalculated r)
                                                (bucket data (series_spacing s))))
               \<and> mset (calculatedPoints s)
                   = mset (map point_of (filter (\<lambda>r. isCalculated r)
                                                (bucket data (series_spacing s))))
               \<and> sorted_wrt (\<lambda>p q. jle (x p) (x q)) (measuredPoints s)
               \<and> sorted_wrt (\<lambda>p q. jle (x p) (x q)) (calculatedPoints s))"
proof -
  define g where "g = groupedData data"
  define ss where "ss = js_sort (\<lambda>a b. jsub a b) (map (\<lambda>e. Number_of_key (fst e)) g)"
  define groups where "groups = map (series_of g) ss"
  note sp = sorted_spacings [OF assms, folded g_def, folded ss_def]
  have lookup: "map_of g (toFixed2 s) = Some (bucket data s)" if "s \<in> set ss" for s
  proof -
    from that sp(2) have "toFixed2 s \<in> (\<lambda>r. toFixed2 (spacing r)) ` set data" by blast
    then show ?thesis unfolding g_def bucket_def by (rule groupedData_lookup)
  qed
  then have "series_loop g ss [] = Inr ([] @ map (series_of g) ss)"
    by (intro series_loop_map) simp
  then have 1: "groupBySpacing data = Inr groups"
    by (simp add: groupBySpacing_def Let_def g_def ss_def groups_def)
  have spc: "map series_spacing groups = ss"
    by (simp add: groups_def series_of_def Let_def comp_def)
  have 2: "sorted_wrt jlt (map series_spacing groups)"
    unfolding spc by (rule sp(1))
  have "(\<lambda>s. toFixed2 (series_spacing s)) ` set groups = toFixed2 ` set (map series_spacing groups)"
    by (simp add: image_image)
  then have 3: "(\<lambda>s. toFixed2 (series_spacing s)) ` set groups
               = (\<lambda>r. toFixed2 (spacing r)) ` set data"
    unfolding spc using sp(2) by simp
  have 4: "mset (measuredPoints s)
             = mset (map point_of (filter (\<lambda>r. \<not> isCalculated r) (bucket data (series_spacing s))))
         \<and> mset (calculatedPoints s)
             = mset (map point_of (filter (\<lambda>r. isCalculated r) (bucket data (series_spacing s))))
         \<and> sorted_wrt (\<lambda>p q. jle (x p) (x q)) (measuredPoints s)
         \<and> sorted_wrt (\<lambda>p q. jle (x p) (x q)) (calculatedPoints s)"
    if "s \<in> set groups" for s
  proof -
    from that obtain v where v: "v \<in> set ss" "s = series_of g v"
      by (auto simp: groups_def)
    have m: "members g (toFixed2 v) = bucket data v"
      using lookup [OF v(1)] by (simp add: members_def)
    have fin: "\<forall>r \<in> set (bucket data v). isFinite (midpoint r)"
      using assms by (auto simp: bucket_def list_all_iff plottable_def)
    show ?thesis
      unfolding v(2) series_of_def m Let_def
      using sorted_points [OF fin] by simp
  qed
  from 1 2 3 4 show ?thesis by blast
qed

theorem groupBySpacing_ordered_witness:
  "list_all plottable
     [\<lparr>arrayType = ''wenner'', positions = [Fin 35, Fin (45004 / 1000), Fin 55, Fin 65],
       spacing = Fin (10004 / 1000), midpoint = Fin 50, depth = Fin 5, kFactor = Fin 62,
       resistance = Fin 2, apparentResistivity = Fin 124, isCalculated = True\<rparr>,
      \<lparr>arrayType = ''wenner'', positions = [Fin 10, Fin 15, Fin 20, Fin 25],
       spacing = Fin 5, midpoint = Fin (35 / 2), depth = Fin 2, kFactor = Fin 31,
       resistance = Fin 2, apparentResistivity = Fin 62, isCalculated = False\<rparr>,
      \<lparr>arrayType = ''wenner'', positions = [Fin 10, Fin (20001 / 1000), Fin 30, Fin 40],
       spacing = Fin (10001 / 1000), midpoint = Fin 25, depth = Fin 5, kFactor = Fin 62,
       resistance = Fin 3, apparentResistivity = Fin 186, isCalculated = True\<rparr>]
   \<and> groupBySpacing
     [\<lparr>arrayType = ''wenner'', positions = [Fin 35, Fin (45004 / 1000), Fin 55, Fin 65],
       spacing = Fin (10004 / 1000), midpoint = Fin 50, depth = Fin 5, kFactor = Fin 62,
       resistance = Fin 2, apparentResistivity = Fin 124, isCalculated = True\<rparr>,
      \<lparr>arrayType = ''wenner'', positions = [Fin 10, Fin 15, Fin 20, Fin 25],
       spacing = Fin 5, midpoint = Fin (35 / 2), depth = Fin 2, kFactor = Fin 31,
       resistance = Fin 2, apparentResistivity = Fin 62, isCalculated = False\<rparr>,
      \<lparr>arrayType = ''wenner'', positions = [Fin 10, Fin (20001 / 1000), Fin 30, Fin 40],
       spacing = Fin (10001 / 1000), midpoint = Fin 25, depth = Fin 5, kFactor = Fin 62,
       resistance = Fin 3, apparentResistivity = Fin 186, isCalculated = True\<rparr>]
     = Inr [\<lparr>series_spacing = Fin 5,
             measuredPoints = [\<lparr>x = Fin (35 / 2), y = Fin 62\<rparr>],
             calculatedPoints = []\<rparr>,
            \<lparr>series_spacing = Fin 10,
             measuredPoints = [],
             calculatedPoints = [\<lparr>x = Fin 25, y = Fin 186\<rparr>, \<lparr>x = Fin 50, y = Fin 124\<rparr>]\<rparr>]
   \<and> sorted_wrt jlt [Fin 5, Fin 10]
   \<and> toFixed2 (Fin (10001 / 1000)) = toFixed2 (Fin (10004 / 1000))"
proof -
  let ?data =
    "[\<lparr>arrayType = ''wenner'', positions = [Fin 35, Fin (45004 / 1000), Fin 55, Fin 65],
       spacing = Fin (10004 / 1000), midpoint = Fin 50, depth = Fin 5, kFactor = Fin 62,
       resistance = Fin 2, apparentResistivity = Fin 124, isCalculated = True\<rparr>,
      \<lparr>arrayType = ''wenner'', positions = [Fin 10, Fin 15, Fin 20, Fin 25],
       spacing = Fin 5, midpoint = Fin (35 / 2), depth = Fin 2, kFactor = Fin 31,
       resistance = Fin 2, apparentResistivity = Fin 62, isCalculated = False\<rparr>,
      \<lparr>arrayType = ''wenner'', positions = [Fin 10, Fin (20001 / 1000), Fin 30, Fin 40],
       spacing = Fin (10001 / 1000), midpoint = Fin 25, depth = Fin 5, kFactor = Fin 62,
       resistance = Fin 3, apparentResistivity = Fin 186, isCalculated = True\<rparr>]"
  let ?out =
    "[\<lparr>series_spacing = Fin 5,
       measuredPoints = [\<lparr>x = Fin (35 / 2), y = Fin 62\<rparr>],
       calculatedPoints = []\<rparr>,
      \<lparr>series_spacing = Fin 10,
       measuredPoints = [],
       calculatedPoints = [\<lparr>x = Fin 25, y = Fin 186\<rparr>, \<lparr>x = Fin 50, y = Fin 124\<rparr>]\<rparr>]"
  have h: "list_all plottable ?data"
    by (simp add: plottable_def off_toFixed_boundary_def num_eval)
  have e: "groupBySpacing ?data = Inr ?out"
    by (simp add: toFixed2_def Number_of_key_def groupedData_def js_sort_def point_of_def
        groupBySpacing_def num_eval)
  from groupBySpacing_ordered [OF h] obtain groups where
    "groupBySpacing ?data = Inr groups" "sorted_wrt jlt (map series_spacing groups)"
    by blast
  with e have s: "sorted_wrt jlt (map series_spacing ?out)" by simp
  have k: "toFixed2 (Fin (10001 / 1000)) = toFixed2 (Fin (10004 / 1000))"
    by (simp add: toFixed2_def)
  from h e s k show ?thesis by simp
qed

end
